theory Spec2Isabelle
  imports Complex_Main "HOL-Library.Word"
begin

section \<open>The image store of \<open>src/main.ts\<close>\<close>

text \<open>
  The program keeps uploaded images in a key-value store, cut into chunks of
  \<open>KV_CHUNK_SIZE\<close> bytes, and serves them back by object id. The embedding follows the
  source function by function; what the environment supplies (the MD5 digest, the random
  UUID, the clock, a storage failure) is a parameter. The router \<open>handler\<close> of lines
  228-252 and the static page are not modelled.
\<close>

subsection \<open>Bytes and the chunk arithmetic\<close>

type_synonym byte = "8 word"
type_synonym bytes = "byte list"

text \<open>\<open>const KV_CHUNK_SIZE = 50 * 1024\<close> (line 5).\<close>

definition KV_CHUNK_SIZE :: nat where
  "KV_CHUNK_SIZE = 50 * 1024"

text \<open>
  \<open>Math.ceil(imageBytes.byteLength / KV_CHUNK_SIZE)\<close> (lines 77 and 116). The chunk size
  is a parameter \<open>cs\<close> of the model; the source passes \<open>KV_CHUNK_SIZE\<close>. Lengths are
  natural numbers and the quotient is the exact one: a length below \<open>2 ^ 32\<close> divided by
  \<open>51200\<close> is far from the range where a double rounds a fraction to an integer.
\<close>

definition chunkCount :: "nat \<Rightarrow> nat \<Rightarrow> nat" where
  "chunkCount len cs = nat \<lceil>real len / real cs\<rceil>"

text \<open>
  \<open>imageBytes.slice(start, end)\<close> for \<open>0 \<le> start\<close>, \<open>0 \<le> end\<close>: the elements at
  positions \<open>start, ..., end - 1\<close> that exist; nothing when \<open>end \<le> start\<close>.
\<close>

definition sliceBytes :: "nat \<Rightarrow> nat \<Rightarrow> bytes \<Rightarrow> bytes" where
  "sliceBytes start end' bs = take (end' - start) (drop start bs)"

text \<open>The body of the chunk loop (lines 94-96 and 134-136): the chunk with index \<open>i\<close>.\<close>

definition chunkAt :: "nat \<Rightarrow> bytes \<Rightarrow> nat \<Rightarrow> bytes" where
  "chunkAt cs bs i =
     (let start = i * cs;
          end' = min (start + cs) (length bs)
      in sliceBytes start end' bs)"

text \<open>
  The chunks the loop \<open>for (let i = 0; i < imageMeta.chunks; i++)\<close> produces, in the
  order it produces them.
\<close>

definition splitChunks :: "nat \<Rightarrow> bytes \<Rightarrow> bytes list" where
  "splitChunks cs bs = map (chunkAt cs bs) [0..<chunkCount (length bs) cs]"

text \<open>
  \<open>fullImage.set(chunk, offset)\<close> (line 205): a \<open>RangeError\<close> (here \<open>None\<close>) when the
  chunk does not fit behind \<open>offset\<close>, else the buffer with the chunk copied in.
\<close>

definition setAt :: "bytes \<Rightarrow> bytes \<Rightarrow> nat \<Rightarrow> bytes option" where
  "setAt buf chunk offset =
     (if offset + length chunk > length buf then None
      else Some (take offset buf @ chunk @ drop (offset + length chunk) buf))"

text \<open>The loop of lines 204-207, with the buffer and the offset as its state.\<close>

fun joinLoop :: "bytes \<Rightarrow> nat \<Rightarrow> bytes list \<Rightarrow> bytes option" where
  "joinLoop buf offset [] = Some buf"
| "joinLoop buf offset (chunk # rest) =
     (case setAt buf chunk offset of
        None \<Rightarrow> None
      | Some buf' \<Rightarrow> joinLoop buf' (offset + length chunk) rest)"

text \<open>
  Lines 202-207: \<open>new Uint8Array(imageMeta.size)\<close> is a buffer of zeros, filled chunk by
  chunk from offset 0.
\<close>

definition joinChunks :: "bytes list \<Rightarrow> nat \<Rightarrow> bytes option" where
  "joinChunks chunks totalSize = joinLoop (replicate totalSize 0) 0 chunks"

subsection \<open>The key-value store\<close>

text \<open>
  \<open>interface ImageMeta\<close> (lines 13-21). The fields \<open>type\<close> and \<open>size\<close> are
  \<open>mimeType\<close> and \<open>byteSize\<close> here; the others keep their names.
\<close>

record ImageMeta =
  name :: string
  mimeType :: string
  byteSize :: nat
  chunks :: nat
  uploadedAt :: nat
  md5 :: string
  completed :: bool

text \<open>
  The three key families of the store: \<open>["images", id, "meta"]\<close>,
  \<open>["images", id, "chunk", i]\<close> and \<open>["md5_to_id", md5]\<close>. Keys of different families
  never coincide, so each family is a map of its own.
\<close>

record kv =
  metas :: "string \<rightharpoonup> ImageMeta"
  chunkRecs :: "string \<times> nat \<rightharpoonup> bytes"
  md5_to_id :: "string \<rightharpoonup> string"

text \<open>One \<open>set\<close> of a key, and its effect on the store.\<close>

datatype kvset =
    SetMeta string ImageMeta
  | SetChunk string nat bytes
  | SetMd5 string string

fun applySet :: "kv \<Rightarrow> kvset \<Rightarrow> kv" where
  "applySet s (SetMeta imageId m) = s\<lparr>metas := (metas s)(imageId \<mapsto> m)\<rparr>"
| "applySet s (SetChunk imageId i chunk) = s\<lparr>chunkRecs := (chunkRecs s)((imageId, i) \<mapsto> chunk)\<rparr>"
| "applySet s (SetMd5 md5Hash imageId) = s\<lparr>md5_to_id := (md5_to_id s)(md5Hash \<mapsto> imageId)\<rparr>"

text \<open>
  One awaited write: \<open>kv.atomic().set(...).set(...).commit()\<close> is the list of its sets,
  applied together; \<open>kv.set(k, v)\<close> is a list of one. No \<open>check\<close> is ever added to an
  atomic operation in the source, so a commit has no condition.
\<close>

definition commit :: "kv \<Rightarrow> kvset list \<Rightarrow> kv" where
  "commit s sets = foldl applySet s sets"

text \<open>Awaited writes, one after the other.\<close>

definition runWrites :: "kv \<Rightarrow> kvset list list \<Rightarrow> kv" where
  "runWrites s writes = foldl commit s writes"

subsection \<open>Uploading one file\<close>

record File =
  fileName :: string
  fileType :: string
  fileBytes :: bytes

text \<open>An entry of \<open>formData.getAll("file")\<close>: a string or a file (line 45).\<close>

datatype entry = StringEntry string | FileEntry File

text \<open>
  What the environment does while one file is processed: the value of
  \<open>crypto.randomUUID()\<close>, the value of \<open>Date.now()\<close>, and whether an awaited operation
  throws. \<open>ReadFault msg\<close>: one of \<open>file.arrayBuffer()\<close>, \<open>calculateMd5\<close> or
  \<open>kv.get\<close> (lines 51-60) throws an error with message \<open>msg\<close>, before anything is
  written. \<open>WriteFault n msg\<close>: the awaited write number \<open>n\<close> of this file (counted from
  0) throws and writes nothing, the writes before it having taken effect; when the file
  issues \<open>n\<close> writes or fewer, nothing throws.
\<close>

datatype fault = NoFault | ReadFault string | WriteFault nat string

record env =
  uuid :: string
  now :: nat
  fault :: fault

text \<open>An element of \<open>results\<close> (line 41): \<open>{name, url?, error?, status}\<close>.\<close>

record result =
  resName :: string
  resUrl :: "string option"
  resError :: "string option"
  resStatus :: string

text \<open>
  Lines 55-62: the look-up of the digest and of the metadata it points to. A string value
  is truthy when it is not empty, a metadata object always.
\<close>

datatype decision = Cached string | Overwrite string | Fresh

definition resolve :: "kv \<Rightarrow> string \<Rightarrow> decision" where
  "resolve s md5Hash =
     (case md5_to_id s md5Hash of
        None \<Rightarrow> Fresh
      | Some existingImageId \<Rightarrow>
          if existingImageId = [] then Fresh
          else (case metas s existingImageId of
                  None \<Rightarrow> Overwrite existingImageId
                | Some m \<Rightarrow> if completed m then Cached existingImageId
                            else Overwrite existingImageId))"

text \<open>The object literal of lines 73-81 and 112-120.\<close>

definition newImageMeta :: "nat \<Rightarrow> File \<Rightarrow> nat \<Rightarrow> string \<Rightarrow> ImageMeta" where
  "newImageMeta cs file t md5Hash =
     \<lparr>name = fileName file, mimeType = fileType file, byteSize = length (fileBytes file),
      chunks = chunkCount (length (fileBytes file)) cs, uploadedAt = t, md5 = md5Hash,
      completed = False\<rparr>"

text \<open>The chunk loop of lines 93-98 and 133-138: one awaited \<open>kv.set\<close> per index.\<close>

definition chunkWrites :: "nat \<Rightarrow> string \<Rightarrow> ImageMeta \<Rightarrow> bytes \<Rightarrow> kvset list list" where
  "chunkWrites cs imageId imageMeta imageBytes =
     map (\<lambda>i. [SetChunk imageId i (chunkAt cs imageBytes i)]) [0..<chunks imageMeta]"

text \<open>Lines 83-101: the writes of the branch that overwrites an object not completed.\<close>

definition overwriteWrites :: "nat \<Rightarrow> string \<Rightarrow> ImageMeta \<Rightarrow> bytes \<Rightarrow> kvset list list" where
  "overwriteWrites cs imageId imageMeta imageBytes =
     [ [SetMeta imageId imageMeta] ]
     @ chunkWrites cs imageId imageMeta imageBytes
     @ [ [SetMeta imageId (imageMeta\<lparr>completed := True\<rparr>)] ]"

text \<open>Lines 122-141: the writes of the branch that stores a new digest.\<close>

definition uploadWrites :: "nat \<Rightarrow> string \<Rightarrow> ImageMeta \<Rightarrow> bytes \<Rightarrow> kvset list list" where
  "uploadWrites cs imageId imageMeta imageBytes =
     [ [SetMeta imageId imageMeta, SetMd5 (md5 imageMeta) imageId] ]
     @ chunkWrites cs imageId imageMeta imageBytes
     @ [ [SetMeta imageId (imageMeta\<lparr>completed := True\<rparr>)] ]"

text \<open>
  The writes of a file are attempted in order. Under \<open>WriteFault n msg\<close> with \<open>n\<close> less
  than their number, the first \<open>n\<close> take effect and the error is caught at line 150.
\<close>

definition attempt :: "kv \<Rightarrow> kvset list list \<Rightarrow> fault \<Rightarrow> kv \<times> string option" where
  "attempt s writes f =
     (case f of
        WriteFault n msg \<Rightarrow>
          if n < length writes then (runWrites s (take n writes), Some msg)
          else (runWrites s writes, None)
      | _ \<Rightarrow> (runWrites s writes, None))"

text \<open>\<open>String.prototype.split\<close> at a one-character separator: never an empty list.\<close>

fun splitOn :: "char \<Rightarrow> string \<Rightarrow> string list" where
  "splitOn c [] = [ [] ]"
| "splitOn c (x # xs) =
     (if x = c then [] # splitOn c xs
      else (case splitOn c xs of
              [] \<Rightarrow> [ [x] ]
            | part # parts \<Rightarrow> (x # part) # parts))"

text \<open>Lines 104-105 and 144-145: the last part when there are at least two, else \<open>''\<close>.\<close>

definition fileExtension :: "string \<Rightarrow> string" where
  "fileExtension fname =
     (let fileNameParts = splitOn CHR ''.'' fname
      in if length fileNameParts > 1 then last fileNameParts else [])"

text \<open>Lines 106 and 146: an empty extension is falsy and adds nothing.\<close>

definition imageUrl :: "string \<Rightarrow> string \<Rightarrow> string \<Rightarrow> string" where
  "imageUrl origin imageId fname =
     origin @ ''/image/'' @ imageId @
       (if fileExtension fname \<noteq> [] then ''.'' @ fileExtension fname else [])"

text \<open>The element pushed at line 152 (and, for a string entry, at line 46).\<close>

definition errorResult :: "string \<Rightarrow> string \<Rightarrow> result" where
  "errorResult fname msg =
     \<lparr>resName = fname, resUrl = None, resError = Some msg, resStatus = ''error''\<rparr>"

text \<open>The element pushed at lines 66, 107 and 147.\<close>

definition okResult :: "string \<Rightarrow> string \<Rightarrow> string \<Rightarrow> result" where
  "okResult fname url st =
     \<lparr>resName = fname, resUrl = Some url, resError = None, resStatus = st\<rparr>"

text \<open>
  The writes one file issues when nothing throws, by the branch taken; the object id is
  the indexed one, or the new UUID.
\<close>

definition plannedWrites ::
  "nat \<Rightarrow> (bytes \<Rightarrow> string) \<Rightarrow> kv \<Rightarrow> File \<Rightarrow> env \<Rightarrow> kvset list list" where
  "plannedWrites cs calculateMd5 s file e =
     (let imageBytes = fileBytes file;
          md5Hash = calculateMd5 imageBytes;
          imageMeta = newImageMeta cs file (now e) md5Hash
      in case resolve s md5Hash of
           Cached existingImageId \<Rightarrow> []
         | Overwrite imageId \<Rightarrow> overwriteWrites cs imageId imageMeta imageBytes
         | Fresh \<Rightarrow> uploadWrites cs (uuid e) imageMeta imageBytes)"

text \<open>
  The object id the file is found or stored under: \<open>existingImageId\<close> (line 59, reused
  at line 71) or the \<open>imageId\<close> of line 111.
\<close>

definition objectId :: "(bytes \<Rightarrow> string) \<Rightarrow> kv \<Rightarrow> File \<Rightarrow> env \<Rightarrow> string" where
  "objectId calculateMd5 s file e =
     (case resolve s (calculateMd5 (fileBytes file)) of
        Cached existingImageId \<Rightarrow> existingImageId
      | Overwrite imageId \<Rightarrow> imageId
      | Fresh \<Rightarrow> uuid e)"

text \<open>
  The body of the \<open>try\<close> of lines 50-153 for one file: the store afterwards and the
  element pushed onto \<open>results\<close>. \<open>calculateMd5\<close> is the digest function of lines 24-29,
  \<open>cs\<close> the chunk size (\<open>KV_CHUNK_SIZE\<close> in the source), \<open>origin\<close> the origin of the
  request URL (line 42).
\<close>

definition processFile ::
  "string \<Rightarrow> nat \<Rightarrow> (bytes \<Rightarrow> string) \<Rightarrow> kv \<Rightarrow> File \<Rightarrow> env \<Rightarrow> kv \<times> result" where
  "processFile origin cs calculateMd5 s file e =
     (case fault e of
        ReadFault msg \<Rightarrow> (s, errorResult (fileName file) msg)
      | _ \<Rightarrow>
        (let imageBytes = fileBytes file;
             md5Hash = calculateMd5 imageBytes;
             imageMeta = newImageMeta cs file (now e) md5Hash
         in case resolve s md5Hash of
              Cached existingImageId \<Rightarrow>
                (s, okResult (fileName file) (origin @ ''/image/'' @ existingImageId) ''cached'')
            | Overwrite imageId \<Rightarrow>
                (case attempt s (overwriteWrites cs imageId imageMeta imageBytes) (fault e) of
                   (s', Some msg) \<Rightarrow> (s', errorResult (fileName file) msg)
                 | (s', None) \<Rightarrow>
                     (s', okResult (fileName file) (imageUrl origin imageId (fileName file))
                            ''overwritten''))
            | Fresh \<Rightarrow>
                (case attempt s (uploadWrites cs (uuid e) imageMeta imageBytes) (fault e) of
                   (s', Some msg) \<Rightarrow> (s', errorResult (fileName file) msg)
                 | (s', None) \<Rightarrow>
                     (s', okResult (fileName file) (imageUrl origin (uuid e) (fileName file))
                            ''uploaded''))))"

text \<open>Lines 45-48: a string entry is reported as an error and the loop goes on.\<close>

definition processEntry ::
  "string \<Rightarrow> nat \<Rightarrow> (bytes \<Rightarrow> string) \<Rightarrow> kv \<Rightarrow> entry \<Rightarrow> env \<Rightarrow> kv \<times> result" where
  "processEntry origin cs calculateMd5 s en e =
     (case en of
        StringEntry v \<Rightarrow> (s, errorResult ''unknown'' ''Invalid file data'')
      | FileEntry file \<Rightarrow> processFile origin cs calculateMd5 s file e)"

text \<open>The loop of lines 44-154 over the entries, each with its environment.\<close>

fun processAll ::
  "string \<Rightarrow> nat \<Rightarrow> (bytes \<Rightarrow> string) \<Rightarrow> kv \<Rightarrow> (entry \<times> env) list \<Rightarrow> kv \<times> result list" where
  "processAll origin cs calculateMd5 s [] = (s, [])"
| "processAll origin cs calculateMd5 s ((en, e) # rest) =
     (case processEntry origin cs calculateMd5 s en e of
        (s1, r) \<Rightarrow>
          (case processAll origin cs calculateMd5 s1 rest of
             (s2, rs) \<Rightarrow> (s2, r # rs)))"

subsection \<open>Responses\<close>

datatype body = Text string | Json "result list" | Bytes bytes

record response =
  respStatus :: nat
  respBody :: body
  contentType :: "string option"

definition textResponse :: "nat \<Rightarrow> string \<Rightarrow> response" where
  "textResponse st msg = \<lparr>respStatus = st, respBody = Text msg, contentType = None\<rparr>"

definition imageResponse :: "bytes \<Rightarrow> string \<Rightarrow> response" where
  "imageResponse img ty = \<lparr>respStatus = 200, respBody = Bytes img, contentType = Some ty\<rparr>"

text \<open>
  \<open>uploadHandler\<close> (lines 32-168). The request is \<open>None\<close> when \<open>request.formData()\<close>
  throws (the outer \<open>catch\<close> of line 164), else the entries named \<open>file\<close>.
\<close>

definition uploadHandler ::
  "string \<Rightarrow> nat \<Rightarrow> (bytes \<Rightarrow> string) \<Rightarrow> kv \<Rightarrow> (entry \<times> env) list option \<Rightarrow> kv \<times> response" where
  "uploadHandler origin cs calculateMd5 s request =
     (case request of
        None \<Rightarrow> (s, textResponse 500 ''Internal Server Error'')
      | Some files \<Rightarrow>
          if files = [] then (s, textResponse 400 ''No files uploaded'')
          else (case processAll origin cs calculateMd5 s files of
                  (s', results) \<Rightarrow>
                    (s', \<lparr>respStatus = (if list_ex (\<lambda>r. resStatus r = ''error'') results
                                        then 500 else 200),
                          respBody = Json results,
                          contentType = Some ''application/json''\<rparr>)))"

subsection \<open>Serving an image\<close>

text \<open>
  The loop of lines 192-200 over the indices it visits: \<open>Inl i\<close> when chunk \<open>i\<close> is the
  first one missing, else the chunks in order. A stored \<open>Uint8Array\<close> is an object, so it
  is truthy even when empty.
\<close>

fun fetchChunks :: "kv \<Rightarrow> string \<Rightarrow> nat list \<Rightarrow> nat + bytes list" where
  "fetchChunks s imageId [] = Inr []"
| "fetchChunks s imageId (i # rest) =
     (case chunkRecs s (imageId, i) of
        None \<Rightarrow> Inl i
      | Some chunk \<Rightarrow>
          (case fetchChunks s imageId rest of
             Inl j \<Rightarrow> Inl j
           | Inr found \<Rightarrow> Inr (chunk # found)))"

text \<open>
  Lines 184-220, reached when the cache does not answer: the response and the cache
  afterwards. The \<open>RangeError\<close> of \<open>fullImage.set\<close> is caught at line 222. The timer
  of lines 212-215 is not part of the model.
\<close>

definition serveStored ::
  "(string \<rightharpoonup> bytes) \<Rightarrow> kv \<Rightarrow> string \<Rightarrow> response \<times> (string \<rightharpoonup> bytes)" where
  "serveStored cache s imageId =
     (case metas s imageId of
        None \<Rightarrow> (textResponse 404 ''Image not found or not yet completed'', cache)
      | Some imageMeta \<Rightarrow>
          if \<not> completed imageMeta
          then (textResponse 404 ''Image not found or not yet completed'', cache)
          else (case fetchChunks s imageId [0..<chunks imageMeta] of
                  Inl i \<Rightarrow> (textResponse 500 ''Image data incomplete'', cache)
                | Inr found \<Rightarrow>
                    (case joinChunks found (byteSize imageMeta) of
                       None \<Rightarrow> (textResponse 500 ''Internal Server Error'', cache)
                     | Some fullImage \<Rightarrow>
                         (imageResponse fullImage (mimeType imageMeta),
                          cache(imageId \<mapsto> fullImage)))))"

text \<open>
  \<open>serveImage\<close> (lines 170-226): a cached image is returned when the metadata exists
  (lines 173-182), whatever its \<open>completed\<close> flag; otherwise the store is read.
\<close>

definition serveImage ::
  "(string \<rightharpoonup> bytes) \<Rightarrow> kv \<Rightarrow> string \<Rightarrow> response \<times> (string \<rightharpoonup> bytes)" where
  "serveImage cache s imageId =
     (case cache imageId of
        None \<Rightarrow> serveStored cache s imageId
      | Some cachedImage \<Rightarrow>
          (case metas s imageId of
             None \<Rightarrow> serveStored cache s imageId
           | Some m \<Rightarrow> (imageResponse cachedImage (mimeType m), cache)))"

text \<open>The store of a fresh database.\<close>

definition emptyKv :: kv where
  "emptyKv = \<lparr>metas = Map.empty, chunkRecs = Map.empty, md5_to_id = Map.empty\<rparr>"

subsection \<open>Example inputs\<close>

text \<open>
  A stand-in for the digest, used only to run the model on concrete inputs: payloads
  whose lengths agree modulo 3 collide.
\<close>

definition toyMd5 :: "bytes \<Rightarrow> string" where
  "toyMd5 bs = replicate (length bs mod 3) CHR ''a'' @ ''#''"

definition pngFile :: File where
  "pngFile = \<lparr>fileName = ''a.png'', fileType = ''image/png'', fileBytes = [1, 2, 3, 4, 5]\<rparr>"

definition smallFile :: File where
  "smallFile = \<lparr>fileName = ''b.gif'', fileType = ''image/gif'', fileBytes = [9, 8]\<rparr>"

definition dotFile :: File where
  "dotFile = \<lparr>fileName = ''abc.'', fileType = ''image/png'', fileBytes = [7]\<rparr>"

definition emptyFile :: File where
  "emptyFile = \<lparr>fileName = ''e.bin'', fileType = ''application/octet-stream'', fileBytes = []\<rparr>"

definition env1 :: env where
  "env1 = \<lparr>uuid = ''u1'', now = 7, fault = NoFault\<rparr>"

definition env2 :: env where
  "env2 = \<lparr>uuid = ''u2'', now = 8, fault = NoFault\<rparr>"

definition envCrash :: env where
  "envCrash = \<lparr>uuid = ''u1'', now = 5, fault = WriteFault 3 ''storage unavailable''\<rparr>"

definition pngMeta :: ImageMeta where
  "pngMeta = \<lparr>name = ''a.png'', mimeType = ''image/png'', byteSize = 3, chunks = 2,
              uploadedAt = 7, md5 = ''aa#'', completed = True\<rparr>"

text \<open>A store whose only object is not completed.\<close>

definition kvIncomplete :: kv where
  "kvIncomplete = emptyKv\<lparr>metas := [''x'' \<mapsto> pngMeta\<lparr>completed := False\<rparr>]\<rparr>"

text \<open>A store whose only object is completed but lacks chunk 1.\<close>

definition kvMissing :: kv where
  "kvMissing = emptyKv\<lparr>metas := [''x'' \<mapsto> pngMeta], chunkRecs := [(''x'', 0) \<mapsto> [1, 2] ]\<rparr>"

text \<open>A store whose only object is completed with one chunk shorter than its size.\<close>

definition kvShort :: kv where
  "kvShort = emptyKv\<lparr>metas := [''x'' \<mapsto> pngMeta\<lparr>chunks := 1\<rparr>],
                     chunkRecs := [(''x'', 0) \<mapsto> [1] ]\<rparr>"

text \<open>
  An upload of five bytes at chunk size 2 that fails at its fourth write, followed by a
  completed upload of two bytes with the same digest: chunk 1 of the first upload is
  left behind under the id.
\<close>

definition kvCrashed :: kv where
  "kvCrashed = fst (processFile ''http://h'' 2 toyMd5 emptyKv pngFile envCrash)"

definition kvLeftover :: kv where
  "kvLeftover = fst (processFile ''http://h'' 2 toyMd5 kvCrashed smallFile env2)"

definition kvClean :: kv where
  "kvClean = kvLeftover\<lparr>chunkRecs := (chunkRecs kvLeftover)((''u1'', 1) := None)\<rparr>"

text \<open>The store after one completed upload of \<open>pngFile\<close>.\<close>

definition kvStored :: kv where
  "kvStored = fst (processFile ''http://h'' 2 toyMd5 emptyKv pngFile env1)"

definition envFail :: env where
  "envFail = \<lparr>uuid = ''u3'', now = 6, fault = WriteFault 1 ''storage unavailable''\<rparr>"

text \<open>Three files with different digests; the store fails during the second.\<close>

definition batch3 :: "(entry \<times> env) list" where
  "batch3 = [(FileEntry pngFile, env1), (FileEntry dotFile, envFail), (FileEntry emptyFile, env2)]"

text \<open>A store whose only object is completed with chunks longer than its size.\<close>

definition kvLong :: kv where
  "kvLong = emptyKv\<lparr>metas := [''x'' \<mapsto> pngMeta],
                    chunkRecs := [(''x'', 0) \<mapsto> [1, 2], (''x'', 1) \<mapsto> [3, 4] ]\<rparr>"

text \<open>Further entries after an upload: a file during which the store fails, and a string.\<close>

definition laterBatch :: "(entry \<times> env) list" where
  "laterBatch = [(FileEntry dotFile, envFail), (StringEntry ''text'', env2)]"

section \<open>Properties of the chunk codec\<close>

lemma chunkCount_div: "chunkCount len cs = (len + cs - 1) div cs"
proof (cases "cs = 0")
  case True
  then show ?thesis by (simp add: chunkCount_def)
next
  case False
  then have pos: "0 < cs" by simp
  let ?q = "(len + cs - 1) div cs"
  have up: "len \<le> ?q * cs"
  proof -
    have "len + cs - 1 < (?q + 1) * cs"
      using pos by (metis Suc_eq_plus1 dividend_less_div_times mult.commute mult_Suc)
    then show ?thesis using pos by simp
  qed
  have lo: "?q * cs < len + cs"
  proof -
    have "?q * cs \<le> len + cs - 1" by simp
    then show ?thesis using pos by linarith
  qed
  have "real len / real cs \<le> real ?q"
    using up pos by (simp add: divide_le_eq flip: of_nat_mult)
  moreover have "real ?q - 1 < real len / real cs"
  proof -
    have "real (?q * cs) < real (len + cs)" using lo by (simp only: of_nat_less_iff)
    then have "(real ?q - 1) * real cs < real len" by (simp add: algebra_simps)
    then show ?thesis using pos by (simp add: less_divide_eq)
  qed
  ultimately have "\<lceil>real len / real cs\<rceil> = int ?q"
    by (intro ceiling_unique) auto
  then show ?thesis by (simp add: chunkCount_def)
qed

lemma chunkAt_take: "chunkAt cs bs i = take cs (drop (i * cs) bs)"
proof (cases "i * cs + cs \<le> length bs")
  case True
  then show ?thesis by (simp add: chunkAt_def sliceBytes_def Let_def min_def)
next
  case False
  then have "min (i * cs + cs) (length bs) - i * cs = length (drop (i * cs) bs)"
    by (simp add: min_def)
  moreover from False have "length (drop (i * cs) bs) \<le> cs" by simp
  ultimately show ?thesis by (simp add: chunkAt_def sliceBytes_def Let_def)
qed

lemma concat_chunks_take:
  "concat (map (chunkAt cs bs) [0..<k]) = take (k * cs) bs"
proof (induction k)
  case 0
  then show ?case by simp
next
  case (Suc k)
  have "Suc k * cs = k * cs + cs" by simp
  then have "take (Suc k * cs) bs = take (k * cs) bs @ take cs (drop (k * cs) bs)"
    by (simp only: take_add)
  with Suc show ?case by (simp add: chunkAt_take)
qed

lemma chunkCount_covers:
  assumes "0 < cs"
  shows "len \<le> chunkCount len cs * cs"
proof -
  have "len + cs - 1 < (chunkCount len cs + 1) * cs"
    unfolding chunkCount_div using assms
    by (metis Suc_eq_plus1 dividend_less_div_times mult.commute mult_Suc)
  then show ?thesis using assms by simp
qed

lemma chunkCount_tight:
  assumes "0 < cs" and "0 < len"
  shows "(chunkCount len cs - 1) * cs < len"
proof -
  have "chunkCount len cs * cs \<le> len + cs - 1"
    unfolding chunkCount_div by simp
  moreover have "0 < chunkCount len cs"
    using chunkCount_covers [OF assms(1), of len] assms(2) by (cases "chunkCount len cs") auto
  ultimately show ?thesis using assms by (simp add: algebra_simps diff_mult_distrib)
qed

lemma concat_splitChunks:
  "0 < cs \<Longrightarrow> concat (splitChunks cs bs) = bs"
  by (simp add: splitChunks_def concat_chunks_take chunkCount_covers)

lemma length_setAt: "setAt buf chunk offset = Some buf' \<Longrightarrow> length buf' = length buf"
  by (auto simp: setAt_def split: if_splits)

lemma joinLoop_fits:
  "offset + length (concat cks) \<le> length buf \<Longrightarrow>
   joinLoop buf offset cks =
     Some (take offset buf @ concat cks @ drop (offset + length (concat cks)) buf)"
proof (induction cks arbitrary: buf offset)
  case Nil
  then show ?case by simp
next
  case (Cons chunk rest)
  let ?buf' = "take offset buf @ chunk @ drop (offset + length chunk) buf"
  from Cons.prems have fit: "offset + length chunk \<le> length buf" by simp
  then have step: "setAt buf chunk offset = Some ?buf'" by (simp add: setAt_def)
  have len: "length ?buf' = length buf" using fit by simp
  have "joinLoop ?buf' (offset + length chunk) rest =
        Some (take (offset + length chunk) ?buf' @ concat rest @
              drop (offset + length chunk + length (concat rest)) ?buf')"
    using Cons.prems by (intro Cons.IH) (simp add: len add.assoc)
  moreover have "take (offset + length chunk) ?buf' = take offset buf @ chunk"
  proof -
    have "length (take offset buf) = offset" using fit by simp
    then show ?thesis by (simp add: take_add)
  qed
  moreover have "drop (offset + length chunk + length (concat rest)) ?buf' =
                 drop (offset + length chunk + length (concat rest)) buf"
    using fit by (simp add: min_def add.commute add.left_commute)
  ultimately show ?case using step by (simp add: add.assoc)
qed

lemma joinLoop_overflow:
  "offset \<le> length buf \<Longrightarrow> length buf < offset + length (concat cks) \<Longrightarrow>
   joinLoop buf offset cks = None"
proof (induction cks arbitrary: buf offset)
  case Nil
  then show ?case by simp
next
  case (Cons chunk rest)
  show ?case
  proof (cases "offset + length chunk > length buf")
    case True
    then show ?thesis by (simp add: setAt_def)
  next
    case False
    let ?buf' = "take offset buf @ chunk @ drop (offset + length chunk) buf"
    from False have step: "setAt buf chunk offset = Some ?buf'" by (simp add: setAt_def)
    have len: "length ?buf' = length buf" using False by simp
    have "joinLoop ?buf' (offset + length chunk) rest = None"
      using Cons.prems False by (intro Cons.IH) (simp_all add: len add.assoc)
    then show ?thesis using step by simp
  qed
qed

lemma length_joinLoop:
  "joinLoop buf offset cks = Some out \<Longrightarrow> length out = length buf"
proof (induction cks arbitrary: buf offset)
  case Nil
  then show ?case by simp
next
  case (Cons chunk rest)
  then show ?case
    by (auto split: option.splits dest: length_setAt)
qed

lemma joinChunks_padded:
  "length (concat cks) \<le> totalSize \<Longrightarrow>
   joinChunks cks totalSize =
     Some (concat cks @ replicate (totalSize - length (concat cks)) 0)"
  by (simp add: joinChunks_def joinLoop_fits)

lemma joinChunks_overflow:
  "totalSize < length (concat cks) \<Longrightarrow> joinChunks cks totalSize = None"
  by (simp add: joinChunks_def joinLoop_overflow)

lemma joinChunks_exact:
  "length (concat cks) = totalSize \<Longrightarrow> joinChunks cks totalSize = Some (concat cks)"
  by (simp add: joinChunks_padded)

text \<open>
  C2. Splitting a payload at a chunk size of at least 1 and joining the cks in index
  order into a buffer of the payload's length gives the payload back, whatever its
  length.
\<close>

theorem join_split_roundtrip:
  "0 < cs \<Longrightarrow> joinChunks (splitChunks cs P) (length P) = Some P"
  by (simp add: joinChunks_exact concat_splitChunks)

theorem join_split_roundtrip_witness:
  "(0::nat) < 2 \<and> joinChunks (splitChunks 2 [1, 2, 3, 4, 5]) (length [1, 2, 3, 4, 5 :: byte])
     = Some [1, 2, 3, 4, 5]"
  using join_split_roundtrip [of 2 "[1, 2, 3, 4, 5]"] by simp

section \<open>The store under a sequence of writes\<close>

lemma runWrites_append: "runWrites s (xs @ ys) = runWrites (runWrites s xs) ys"
  by (simp add: runWrites_def)

lemma runWrites_Nil: "runWrites s [] = s"
  by (simp add: runWrites_def)

lemma runWrites_Cons: "runWrites s (w # ws) = runWrites (commit s w) ws"
  by (simp add: runWrites_def)

lemma commit_SetMeta: "commit s [SetMeta imageId m] = s\<lparr>metas := (metas s)(imageId \<mapsto> m)\<rparr>"
  by (simp add: commit_def)

lemma commit_SetMeta_SetMd5:
  "commit s [SetMeta imageId m, SetMd5 d imageId'] =
     s\<lparr>metas := (metas s)(imageId \<mapsto> m), md5_to_id := (md5_to_id s)(d \<mapsto> imageId')\<rparr>"
  by (simp add: commit_def)

lemma commit_SetChunk:
  "commit s [SetChunk imageId i c] = s\<lparr>chunkRecs := (chunkRecs s)((imageId, i) \<mapsto> c)\<rparr>"
  by (simp add: commit_def)

text \<open>The store after the first k chunk writes of a loop.\<close>

lemma runWrites_chunk_loop:
  "runWrites s (map (\<lambda>i. [SetChunk imageId i (g i)]) [0..<k]) =
     s\<lparr>chunkRecs := (\<lambda>key. if fst key = imageId \<and> snd key < k then Some (g (snd key))
                              else chunkRecs s key)\<rparr>"
proof (induction k)
  case 0
  then show ?case by (simp add: runWrites_Nil)
next
  case (Suc k)
  have "runWrites s (map (\<lambda>i. [SetChunk imageId i (g i)]) [0..<Suc k]) =
        commit (runWrites s (map (\<lambda>i. [SetChunk imageId i (g i)]) [0..<k]))
          [SetChunk imageId k (g k)]"
    by (simp add: runWrites_append runWrites_Cons runWrites_Nil)
  also have "\<dots> = s\<lparr>chunkRecs := (\<lambda>key. if fst key = imageId \<and> snd key < Suc k
                                        then Some (g (snd key)) else chunkRecs s key)\<rparr>"
    unfolding Suc.IH commit_SetChunk
    by (auto simp: fun_eq_iff less_Suc_eq)
  finally show ?case .
qed

lemma take_chunkWrites:
  "take k (chunkWrites cs imageId m bs) =
     map (\<lambda>i. [SetChunk imageId i (chunkAt cs bs i)]) [0..<min k (chunks m)]"
proof -
  have "take k [0..<chunks m] = [0..<min k (chunks m)]"
    by (cases "k \<le> chunks m") (simp_all add: min_def)
  then show ?thesis by (simp add: chunkWrites_def take_map)
qed

lemma length_chunkWrites: "length (chunkWrites cs imageId m bs) = chunks m"
  by (simp add: chunkWrites_def)

lemma metas_chunk_prefix:
  "metas (runWrites s (take k (chunkWrites cs imageId m bs))) = metas s"
  by (simp add: take_chunkWrites runWrites_chunk_loop)

lemma md5_chunk_prefix:
  "md5_to_id (runWrites s (take k (chunkWrites cs imageId m bs))) = md5_to_id s"
  by (simp add: take_chunkWrites runWrites_chunk_loop)

lemma chunkRecs_chunkWrites:
  "chunkRecs (runWrites s (chunkWrites cs imageId m bs)) (j, i) =
     (if j = imageId \<and> i < chunks m then Some (chunkAt cs bs i) else chunkRecs s (j, i))"
  by (simp add: chunkWrites_def runWrites_chunk_loop)

lemma fetchChunks_present:
  "\<forall>i \<in> set idxs. chunkRecs s (imageId, i) = Some (g i) \<Longrightarrow>
   fetchChunks s imageId idxs = Inr (map g idxs)"
  by (induction idxs) auto

lemma fetchChunks_missing:
  "i \<in> set idxs \<Longrightarrow> chunkRecs s (imageId, i) = None \<Longrightarrow>
   \<exists>j. fetchChunks s imageId idxs = Inl j"
  by (induction idxs) (auto split: option.splits sum.splits)

lemma fetchChunks_cong:
  "\<forall>i \<in> set idxs. chunkRecs s1 (imageId, i) = chunkRecs s2 (imageId, i) \<Longrightarrow>
   fetchChunks s1 imageId idxs = fetchChunks s2 imageId idxs"
  by (induction idxs) (auto split: option.splits sum.splits)

lemma take_framed:
  "0 < k \<Longrightarrow> k \<le> Suc (length mid) \<Longrightarrow> take k (first # mid @ [final]) = first # take (k - 1) mid"
  by (cases k) simp_all

lemma length_overwriteWrites: "length (overwriteWrites cs imageId m bs) = chunks m + 2"
  by (simp add: overwriteWrites_def length_chunkWrites)

lemma length_uploadWrites: "length (uploadWrites cs imageId m bs) = chunks m + 2"
  by (simp add: uploadWrites_def length_chunkWrites)

lemma overwrite_prefix:
  assumes "0 < k" and "k < length (overwriteWrites cs imageId m bs)"
  shows "runWrites s (take k (overwriteWrites cs imageId m bs)) =
         runWrites (commit s [SetMeta imageId m]) (take (k - 1) (chunkWrites cs imageId m bs))"
proof -
  from assms have "k \<le> Suc (length (chunkWrites cs imageId m bs))"
    by (simp add: length_overwriteWrites length_chunkWrites)
  with assms(1) show ?thesis
    by (simp add: overwriteWrites_def take_framed runWrites_Cons)
qed

lemma upload_prefix:
  assumes "0 < k" and "k < length (uploadWrites cs imageId m bs)"
  shows "runWrites s (take k (uploadWrites cs imageId m bs)) =
         runWrites (commit s [SetMeta imageId m, SetMd5 (md5 m) imageId])
           (take (k - 1) (chunkWrites cs imageId m bs))"
proof -
  from assms have "k \<le> Suc (length (chunkWrites cs imageId m bs))"
    by (simp add: length_uploadWrites length_chunkWrites)
  with assms(1) show ?thesis
    by (simp add: uploadWrites_def take_framed runWrites_Cons)
qed

lemma metas_overwrite_prefix:
  "0 < k \<Longrightarrow> k < length (overwriteWrites cs imageId m bs) \<Longrightarrow>
   metas (runWrites s (take k (overwriteWrites cs imageId m bs))) = (metas s)(imageId \<mapsto> m)"
  by (simp add: overwrite_prefix metas_chunk_prefix commit_SetMeta)

lemma metas_upload_prefix:
  "0 < k \<Longrightarrow> k < length (uploadWrites cs imageId m bs) \<Longrightarrow>
   metas (runWrites s (take k (uploadWrites cs imageId m bs))) = (metas s)(imageId \<mapsto> m)"
  by (simp add: upload_prefix metas_chunk_prefix commit_SetMeta_SetMd5)

lemma take_all_chunkWrites:
  "take (chunks m) (chunkWrites cs imageId m bs) = chunkWrites cs imageId m bs"
  by (simp add: length_chunkWrites)

lemma overwrite_done:
  "runWrites s (overwriteWrites cs imageId m bs) =
     commit (runWrites (commit s [SetMeta imageId m]) (chunkWrites cs imageId m bs))
       [SetMeta imageId (m\<lparr>completed := True\<rparr>)]"
  by (simp add: overwriteWrites_def runWrites_append runWrites_Cons runWrites_Nil)

lemma upload_done:
  "runWrites s (uploadWrites cs imageId m bs) =
     commit (runWrites (commit s [SetMeta imageId m, SetMd5 (md5 m) imageId])
               (chunkWrites cs imageId m bs))
       [SetMeta imageId (m\<lparr>completed := True\<rparr>)]"
  by (simp add: uploadWrites_def runWrites_append runWrites_Cons runWrites_Nil)

lemma metas_chunkWrites: "metas (runWrites s (chunkWrites cs imageId m bs)) = metas s"
  using metas_chunk_prefix [of s "chunks m" cs imageId m bs] by (simp add: take_all_chunkWrites)

lemma md5_chunkWrites: "md5_to_id (runWrites s (chunkWrites cs imageId m bs)) = md5_to_id s"
  using md5_chunk_prefix [of s "chunks m" cs imageId m bs] by (simp add: take_all_chunkWrites)

lemma metas_overwrite_done:
  "metas (runWrites s (overwriteWrites cs imageId m bs)) =
     (metas s)(imageId \<mapsto> m\<lparr>completed := True\<rparr>)"
  by (simp add: overwrite_done commit_SetMeta metas_chunkWrites)

lemma metas_upload_done:
  "metas (runWrites s (uploadWrites cs imageId m bs)) =
     (metas s)(imageId \<mapsto> m\<lparr>completed := True\<rparr>)"
  by (simp add: upload_done commit_SetMeta commit_SetMeta_SetMd5 metas_chunkWrites)

lemma md5_overwrite_done:
  "md5_to_id (runWrites s (overwriteWrites cs imageId m bs)) = md5_to_id s"
  by (simp add: overwrite_done commit_SetMeta md5_chunkWrites)

lemma md5_upload_done:
  "md5_to_id (runWrites s (uploadWrites cs imageId m bs)) = (md5_to_id s)(md5 m \<mapsto> imageId)"
  by (simp add: upload_done commit_SetMeta commit_SetMeta_SetMd5 md5_chunkWrites)

lemma chunkRecs_overwrite_done:
  "chunkRecs (runWrites s (overwriteWrites cs imageId m bs)) (j, i) =
     (if j = imageId \<and> i < chunks m then Some (chunkAt cs bs i) else chunkRecs s (j, i))"
  by (simp add: overwrite_done commit_SetMeta chunkRecs_chunkWrites)

lemma chunkRecs_upload_done:
  "chunkRecs (runWrites s (uploadWrites cs imageId m bs)) (j, i) =
     (if j = imageId \<and> i < chunks m then Some (chunkAt cs bs i) else chunkRecs s (j, i))"
  by (simp add: upload_done commit_SetMeta commit_SetMeta_SetMd5 chunkRecs_chunkWrites)

section \<open>Reading the store\<close>

text \<open>Reading a completed object whose chunk records are the chunks of a payload.\<close>

lemma serveStored_complete:
  assumes "0 < cs"
    and "metas s imageId = Some m" and "completed m"
    and "chunks m = chunkCount (length bs) cs" and "byteSize m = length bs"
    and "\<forall>i < chunks m. chunkRecs s (imageId, i) = Some (chunkAt cs bs i)"
  shows "serveStored cache s imageId = (imageResponse bs (mimeType m), cache(imageId \<mapsto> bs))"
proof -
  have "fetchChunks s imageId [0..<chunks m] = Inr (map (chunkAt cs bs) [0..<chunks m])"
    using assms(6) by (intro fetchChunks_present) simp
  then have "fetchChunks s imageId [0..<chunks m] = Inr (splitChunks cs bs)"
    by (simp add: splitChunks_def assms(4))
  moreover have "joinChunks (splitChunks cs bs) (byteSize m) = Some bs"
    using assms(1,5) by (simp add: joinChunks_exact concat_splitChunks)
  ultimately show ?thesis
    using assms(2,3) by (simp add: serveStored_def)
qed

lemma serveStored_absent:
  "metas s imageId = None \<Longrightarrow>
   serveStored cache s imageId = (textResponse 404 ''Image not found or not yet completed'', cache)"
  by (simp add: serveStored_def)

lemma serveStored_incomplete:
  "metas s imageId = Some m \<Longrightarrow> \<not> completed m \<Longrightarrow>
   serveStored cache s imageId = (textResponse 404 ''Image not found or not yet completed'', cache)"
  by (simp add: serveStored_def)

lemma serveStored_missing_chunk:
  assumes "metas s imageId = Some m" and "completed m"
    and "i < chunks m" and "chunkRecs s (imageId, i) = None"
  shows "serveStored cache s imageId = (textResponse 500 ''Image data incomplete'', cache)"
proof -
  from assms(3) have "i \<in> set [0..<chunks m]" by simp
  from fetchChunks_missing [OF this assms(4)]
  obtain j where "fetchChunks s imageId [0..<chunks m] = Inl j" by blast
  then show ?thesis using assms(1,2) by (simp add: serveStored_def)
qed

lemma serveImage_miss: "cache imageId = None \<Longrightarrow> serveImage cache s imageId = serveStored cache s imageId"
  by (simp add: serveImage_def)

lemma serveImage_absent:
  "metas s imageId = None \<Longrightarrow>
   serveImage cache s imageId = (textResponse 404 ''Image not found or not yet completed'', cache)"
  by (simp add: serveImage_def serveStored_absent split: option.splits)

text \<open>
  C5. The read of the store (lines 184-198) answers 404 when no metadata record exists
  for the object id, 404 when the metadata has completed = false, and 500 (image data
  incomplete) when the metadata has completed = true and a chunk record is missing at an
  index below its chunk count. \<open>serveImage\<close> gives the same answers whenever the cache
  holds nothing for the id, and without metadata in any case. In none of these cases are
  bytes returned or cached.
\<close>

theorem read_error_responses:
  "(metas s imageId = None \<longrightarrow>
      serveStored cache s imageId =
        (textResponse 404 ''Image not found or not yet completed'', cache) \<and>
      serveImage cache s imageId =
        (textResponse 404 ''Image not found or not yet completed'', cache)) \<and>
   (\<forall>m. metas s imageId = Some m \<and> \<not> completed m \<longrightarrow>
      serveStored cache s imageId =
        (textResponse 404 ''Image not found or not yet completed'', cache) \<and>
      (cache imageId = None \<longrightarrow>
         serveImage cache s imageId =
           (textResponse 404 ''Image not found or not yet completed'', cache))) \<and>
   (\<forall>m i. metas s imageId = Some m \<and> completed m \<and> i < chunks m \<and>
          chunkRecs s (imageId, i) = None \<longrightarrow>
      serveStored cache s imageId = (textResponse 500 ''Image data incomplete'', cache) \<and>
      (cache imageId = None \<longrightarrow>
         serveImage cache s imageId = (textResponse 500 ''Image data incomplete'', cache)))"
proof (intro conjI allI impI)
  assume "metas s imageId = None"
  then show "serveStored cache s imageId =
        (textResponse 404 ''Image not found or not yet completed'', cache)"
    and "serveImage cache s imageId =
        (textResponse 404 ''Image not found or not yet completed'', cache)"
    by (simp_all add: serveStored_absent serveImage_absent)
next
  fix m
  assume h: "metas s imageId = Some m \<and> \<not> completed m"
  then show stored: "serveStored cache s imageId =
        (textResponse 404 ''Image not found or not yet completed'', cache)"
    by (simp add: serveStored_incomplete)
  assume "cache imageId = None"
  with stored show "serveImage cache s imageId =
        (textResponse 404 ''Image not found or not yet completed'', cache)"
    by (simp add: serveImage_miss)
next
  fix m i
  assume h: "metas s imageId = Some m \<and> completed m \<and> i < chunks m \<and>
          chunkRecs s (imageId, i) = None"
  then show stored: "serveStored cache s imageId =
      (textResponse 500 ''Image data incomplete'', cache)"
    using serveStored_missing_chunk [of s imageId m i cache] by simp
  assume "cache imageId = None"
  with stored show "serveImage cache s imageId =
      (textResponse 500 ''Image data incomplete'', cache)"
    by (simp add: serveImage_miss)
qed

theorem read_error_responses_witness:
  "metas emptyKv ''x'' = None \<and>
   serveImage Map.empty emptyKv ''x'' =
     (textResponse 404 ''Image not found or not yet completed'', Map.empty) \<and>
   metas kvIncomplete ''x'' = Some (pngMeta\<lparr>completed := False\<rparr>) \<and>
   serveImage Map.empty kvIncomplete ''x'' =
     (textResponse 404 ''Image not found or not yet completed'', Map.empty) \<and>
   metas kvMissing ''x'' = Some pngMeta \<and> completed pngMeta \<and> 1 < chunks pngMeta \<and>
   chunkRecs kvMissing (''x'', 1) = None \<and>
   serveImage Map.empty kvMissing ''x'' =
     (textResponse 500 ''Image data incomplete'', Map.empty)"
proof -
  have a: "metas emptyKv ''x'' = None" by (simp add: emptyKv_def)
  have b: "metas kvIncomplete ''x'' = Some (pngMeta\<lparr>completed := False\<rparr>)"
    "\<not> completed (pngMeta\<lparr>completed := False\<rparr>)"
    by (simp_all add: kvIncomplete_def)
  have c: "metas kvMissing ''x'' = Some pngMeta" "completed pngMeta" "1 < chunks pngMeta"
    "chunkRecs kvMissing (''x'', 1) = None"
    by (simp_all add: kvMissing_def emptyKv_def pngMeta_def)
  have e: "(Map.empty :: string \<rightharpoonup> bytes) ''x'' = None" by simp
  show ?thesis
    using a b c e
      read_error_responses [of emptyKv "''x''" Map.empty]
      read_error_responses [of kvIncomplete "''x''" Map.empty]
      read_error_responses [of kvMissing "''x''" Map.empty]
    by blast
qed

text \<open>
  C10. The answer to a read depends on the store only through the metadata of the id
  and the chunk records with an index below the chunk count of that metadata: two
  stores that agree on these give the same response and the same cache, whatever other
  chunk records they hold under the id. When the object is completed, nothing is cached
  and those records are all present, the bytes returned are the join of exactly the
  records 0, ..., chunks - 1.
\<close>

theorem read_ignores_extra_chunks:
  "(metas s1 imageId = metas s2 imageId \<and>
    (\<forall>m i. metas s1 imageId = Some m \<and> i < chunks m \<longrightarrow>
       chunkRecs s1 (imageId, i) = chunkRecs s2 (imageId, i)) \<longrightarrow>
    serveImage cache s1 imageId = serveImage cache s2 imageId) \<and>
   (\<forall>m. cache imageId = None \<and> metas s1 imageId = Some m \<and> completed m \<and>
        (\<forall>i < chunks m. chunkRecs s1 (imageId, i) \<noteq> None) \<longrightarrow>
      fst (serveImage cache s1 imageId) =
        (case joinChunks (map (\<lambda>i. the (chunkRecs s1 (imageId, i))) [0..<chunks m])
                (byteSize m) of
           None \<Rightarrow> textResponse 500 ''Internal Server Error''
         | Some fullImage \<Rightarrow> imageResponse fullImage (mimeType m)))"
proof (intro conjI impI allI)
  assume h: "metas s1 imageId = metas s2 imageId \<and>
    (\<forall>m i. metas s1 imageId = Some m \<and> i < chunks m \<longrightarrow>
       chunkRecs s1 (imageId, i) = chunkRecs s2 (imageId, i))"
  have stored: "serveStored cache s1 imageId = serveStored cache s2 imageId"
  proof (cases "metas s1 imageId")
    case None
    with h show ?thesis by (simp add: serveStored_def)
  next
    case (Some m)
    with h have "\<forall>i \<in> set [0..<chunks m]. chunkRecs s1 (imageId, i) = chunkRecs s2 (imageId, i)"
      by simp
    then have "fetchChunks s1 imageId [0..<chunks m] = fetchChunks s2 imageId [0..<chunks m]"
      by (rule fetchChunks_cong)
    with Some h show ?thesis by (simp add: serveStored_def)
  qed
  moreover from h have "metas s1 imageId = metas s2 imageId" by simp
  ultimately show "serveImage cache s1 imageId = serveImage cache s2 imageId"
    unfolding serveImage_def by (simp split: option.splits)
next
  fix m
  assume h: "cache imageId = None \<and> metas s1 imageId = Some m \<and> completed m \<and>
        (\<forall>i < chunks m. chunkRecs s1 (imageId, i) \<noteq> None)"
  then have "\<forall>i \<in> set [0..<chunks m].
      chunkRecs s1 (imageId, i) = Some (the (chunkRecs s1 (imageId, i)))"
    by simp
  then have "fetchChunks s1 imageId [0..<chunks m] =
      Inr (map (\<lambda>i. the (chunkRecs s1 (imageId, i))) [0..<chunks m])"
    by (rule fetchChunks_present)
  with h show "fst (serveImage cache s1 imageId) =
        (case joinChunks (map (\<lambda>i. the (chunkRecs s1 (imageId, i))) [0..<chunks m])
                (byteSize m) of
           None \<Rightarrow> textResponse 500 ''Internal Server Error''
         | Some fullImage \<Rightarrow> imageResponse fullImage (mimeType m))"
    by (simp add: serveImage_miss serveStored_def split: option.splits)
qed

theorem read_ignores_extra_chunks_witness:
  "chunkRecs kvLeftover (''u1'', 1) = Some [3, 4] \<and>
   chunkRecs kvClean (''u1'', 1) = None \<and>
   serveImage Map.empty kvLeftover ''u1'' = serveImage Map.empty kvClean ''u1'' \<and>
   fst (serveImage Map.empty kvLeftover ''u1'') = imageResponse [9, 8] ''image/gif''"
proof -
  let ?m = "\<lparr>name = ''b.gif'', mimeType = ''image/gif'', byteSize = 2, chunks = 1,
             uploadedAt = 8, md5 = ''aa#'', completed = True\<rparr>"
  have m: "metas kvLeftover ''u1'' = Some ?m" by code_simp
  have c0: "chunkRecs kvLeftover (''u1'', 0) = Some [9, 8]" by code_simp
  have c1: "chunkRecs kvLeftover (''u1'', 1) = Some [3, 4]" by code_simp
  have clean: "chunkRecs kvClean (''u1'', 1) = None" by (simp add: kvClean_def)
  have eqm: "metas kvLeftover ''u1'' = metas kvClean ''u1''" by (simp add: kvClean_def)
  have agree: "\<forall>m i. metas kvLeftover ''u1'' = Some m \<and> i < chunks m \<longrightarrow>
      chunkRecs kvLeftover (''u1'', i) = chunkRecs kvClean (''u1'', i)"
    using m by (auto simp: kvClean_def)
  have present: "\<forall>i < chunks ?m. chunkRecs kvLeftover (''u1'', i) \<noteq> None"
    using c0 by simp
  have miss: "(Map.empty :: string \<rightharpoonup> bytes) ''u1'' = None" by simp
  have joined: "joinChunks (map (\<lambda>i. the (chunkRecs kvLeftover (''u1'', i))) [0..<chunks ?m])
      (byteSize ?m) = Some [9, 8]"
    using c0 by (simp add: joinChunks_def setAt_def)
  note inst = read_ignores_extra_chunks [of kvLeftover "''u1''" kvClean Map.empty]
  from inst eqm agree
  have same: "serveImage Map.empty kvLeftover ''u1'' = serveImage Map.empty kvClean ''u1''"
    by blast
  have comp: "completed ?m" by simp
  from inst miss m comp present
  have "fst (serveImage Map.empty kvLeftover ''u1'') =
        (case joinChunks (map (\<lambda>i. the (chunkRecs kvLeftover (''u1'', i))) [0..<chunks ?m])
                (byteSize ?m) of
           None \<Rightarrow> textResponse 500 ''Internal Server Error''
         | Some fullImage \<Rightarrow> imageResponse fullImage (mimeType ?m))"
    by blast
  with joined have "fst (serveImage Map.empty kvLeftover ''u1'') = imageResponse [9, 8] ''image/gif''"
    by simp
  with c1 clean same show ?thesis by simp
qed

section \<open>The two-phase write\<close>

lemma incomplete_prefix_overwrite:
  assumes "\<not> completed m" and "k < length (overwriteWrites cs imageId m bs)"
    and "k = 0 \<longrightarrow> (case metas s imageId of None \<Rightarrow> True | Some m0 \<Rightarrow> \<not> completed m0)"
  shows "case metas (runWrites s (take k (overwriteWrites cs imageId m bs))) imageId of
           None \<Rightarrow> True | Some m' \<Rightarrow> \<not> completed m'"
proof (cases "k = 0")
  case True
  with assms(3) show ?thesis by (simp add: runWrites_Nil)
next
  case False
  then have "metas (runWrites s (take k (overwriteWrites cs imageId m bs))) imageId = Some m"
    using assms(2) by (simp add: metas_overwrite_prefix)
  with assms(1) show ?thesis by simp
qed

lemma incomplete_prefix_upload:
  assumes "\<not> completed m" and "k < length (uploadWrites cs imageId m bs)"
    and "k = 0 \<longrightarrow> (case metas s imageId of None \<Rightarrow> True | Some m0 \<Rightarrow> \<not> completed m0)"
  shows "case metas (runWrites s (take k (uploadWrites cs imageId m bs))) imageId of
           None \<Rightarrow> True | Some m' \<Rightarrow> \<not> completed m'"
proof (cases "k = 0")
  case True
  with assms(3) show ?thesis by (simp add: runWrites_Nil)
next
  case False
  then have "metas (runWrites s (take k (uploadWrites cs imageId m bs))) imageId = Some m"
    using assms(2) by (simp add: metas_upload_prefix)
  with assms(1) show ?thesis by simp
qed

lemma serveImage_not_completed:
  assumes "case metas s imageId of None \<Rightarrow> True | Some m \<Rightarrow> \<not> completed m"
    and "cache imageId = None"
  shows "serveImage cache s imageId =
           (textResponse 404 ''Image not found or not yet completed'', cache)"
  using assms
  by (cases "metas s imageId")
     (simp_all add: serveImage_miss serveStored_absent serveStored_incomplete)

lemma resolve_Overwrite_incomplete:
  "resolve s d = Overwrite imageId \<Longrightarrow>
   (case metas s imageId of None \<Rightarrow> True | Some m0 \<Rightarrow> \<not> completed m0)"
  by (auto simp: resolve_def split: option.splits if_splits)

lemma resolve_Overwrite_indexed:
  "resolve s d = Overwrite imageId \<Longrightarrow> md5_to_id s d = Some imageId \<and> imageId \<noteq> []"
  by (auto simp: resolve_def split: option.splits if_splits)

lemma resolve_Cached_iff:
  "resolve s d = Cached imageId \<longleftrightarrow>
     md5_to_id s d = Some imageId \<and> imageId \<noteq> [] \<and>
     (\<exists>m. metas s imageId = Some m \<and> completed m)"
  by (auto simp: resolve_def split: option.splits if_splits)

lemma newImageMeta_fields:
  "\<not> completed (newImageMeta cs file t d)"
  "chunks (newImageMeta cs file t d) = chunkCount (length (fileBytes file)) cs"
  "byteSize (newImageMeta cs file t d) = length (fileBytes file)"
  "md5 (newImageMeta cs file t d) = d"
  "mimeType (newImageMeta cs file t d) = fileType file"
  "name (newImageMeta cs file t d) = fileName file"
  by (simp_all add: newImageMeta_def)

lemma serveImage_hit:
  "cache imageId = Some b \<Longrightarrow>
   respBody (fst (serveImage cache s imageId)) = Bytes b \<or>
   fst (serveImage cache s imageId) =
     textResponse 404 ''Image not found or not yet completed''"
  by (cases "metas s imageId")
     (simp_all add: serveImage_def serveStored_absent imageResponse_def)

text \<open>
  C1. An upload that stores bytes issues, in this order, one write of the metadata with
  completed = false (together with the digest entry when the digest is new), one write
  per chunk index 0, ..., chunks - 1, and one last write of the metadata with
  completed = true. After any number of these writes short of all of them, the metadata
  of the object is absent or has completed = false, and a read that the cache does not
  answer returns 404 and no bytes; before the first write this needs the new UUID to be
  unused. A read that the cache does answer returns the bytes the cache held, never
  bytes assembled from the chunk records. After the last write the metadata has
  completed = true.
\<close>

theorem two_phase_write:
  assumes stores: "\<forall>i. resolve s (calculateMd5 (fileBytes file)) \<noteq> Cached i"
    and id: "imageId = objectId calculateMd5 s file e"
    and m: "m = newImageMeta cs file (now e) (calculateMd5 (fileBytes file))"
    and ws: "ws = plannedWrites cs calculateMd5 s file e"
  shows "ws = (SetMeta imageId m #
                 (if resolve s (calculateMd5 (fileBytes file)) = Fresh
                  then [SetMd5 (calculateMd5 (fileBytes file)) imageId] else []))
              # map (\<lambda>i. [SetChunk imageId i (chunkAt cs (fileBytes file) i)])
                  [0..<chunkCount (length (fileBytes file)) cs]
              @ [ [SetMeta imageId (m\<lparr>completed := True\<rparr>)] ] \<and>
         \<not> completed m \<and>
         (\<forall>k. k < length ws \<and>
              (k = 0 \<and> resolve s (calculateMd5 (fileBytes file)) = Fresh
                 \<longrightarrow> metas s imageId = None) \<longrightarrow>
            (case metas (runWrites s (take k ws)) imageId of
               None \<Rightarrow> True | Some m' \<Rightarrow> \<not> completed m') \<and>
            (\<forall>cache. cache imageId = None \<longrightarrow>
               serveImage cache (runWrites s (take k ws)) imageId =
                 (textResponse 404 ''Image not found or not yet completed'', cache)) \<and>
            (\<forall>cache b. cache imageId = Some b \<longrightarrow>
               respBody (fst (serveImage cache (runWrites s (take k ws)) imageId)) = Bytes b \<or>
               fst (serveImage cache (runWrites s (take k ws)) imageId) =
                 textResponse 404 ''Image not found or not yet completed'')) \<and>
         metas (runWrites s ws) imageId = Some (m\<lparr>completed := True\<rparr>)"
proof (cases "resolve s (calculateMd5 (fileBytes file))")
  case (Cached i)
  with stores show ?thesis by simp
next
  case (Overwrite i)
  then have i: "imageId = i" by (simp add: id objectId_def)
  have ws': "ws = overwriteWrites cs imageId m (fileBytes file)"
    using Overwrite by (simp add: ws plannedWrites_def Let_def m i)
  have nc: "\<not> completed m" by (simp add: m newImageMeta_fields)
  have old: "case metas s imageId of None \<Rightarrow> True | Some m0 \<Rightarrow> \<not> completed m0"
    using resolve_Overwrite_incomplete [OF Overwrite] by (simp add: i)
  have shape: "ws = [SetMeta imageId m]
              # map (\<lambda>i. [SetChunk imageId i (chunkAt cs (fileBytes file) i)])
                  [0..<chunkCount (length (fileBytes file)) cs]
              @ [ [SetMeta imageId (m\<lparr>completed := True\<rparr>)] ]"
    by (simp add: ws' overwriteWrites_def chunkWrites_def m newImageMeta_fields)
  have mid: "(case metas (runWrites s (take k ws)) imageId of
               None \<Rightarrow> True | Some m' \<Rightarrow> \<not> completed m')" if "k < length ws" for k
    unfolding ws' using nc that old by (intro incomplete_prefix_overwrite) (simp_all add: ws')
  have fin: "metas (runWrites s ws) imageId = Some (m\<lparr>completed := True\<rparr>)"
    by (simp add: ws' metas_overwrite_done)
  show ?thesis
    using Overwrite shape nc mid fin by (simp add: serveImage_not_completed serveImage_hit)
next
  case Fresh
  then have i: "imageId = uuid e" by (simp add: id objectId_def)
  have ws': "ws = uploadWrites cs imageId m (fileBytes file)"
    using Fresh by (simp add: ws plannedWrites_def Let_def m i)
  have nc: "\<not> completed m" by (simp add: m newImageMeta_fields)
  have shape: "ws = [SetMeta imageId m, SetMd5 (calculateMd5 (fileBytes file)) imageId]
              # map (\<lambda>i. [SetChunk imageId i (chunkAt cs (fileBytes file) i)])
                  [0..<chunkCount (length (fileBytes file)) cs]
              @ [ [SetMeta imageId (m\<lparr>completed := True\<rparr>)] ]"
    by (simp add: ws' uploadWrites_def chunkWrites_def m newImageMeta_fields)
  have mid: "(case metas (runWrites s (take k ws)) imageId of
               None \<Rightarrow> True | Some m' \<Rightarrow> \<not> completed m')"
    if "k < length ws" and "k = 0 \<longrightarrow> metas s imageId = None" for k
    unfolding ws' using nc that by (intro incomplete_prefix_upload) (auto simp: ws')
  have fin: "metas (runWrites s ws) imageId = Some (m\<lparr>completed := True\<rparr>)"
    by (simp add: ws' metas_upload_done)
  show ?thesis
    using Fresh shape nc mid fin by (simp add: serveImage_not_completed serveImage_hit)
qed

theorem two_phase_write_witness:
  "resolve emptyKv (toyMd5 (fileBytes pngFile)) = Fresh \<and>
   plannedWrites 2 toyMd5 emptyKv pngFile env1 =
     [ [SetMeta ''u1'' (newImageMeta 2 pngFile 7 ''aa#''), SetMd5 ''aa#'' ''u1''],
      [SetChunk ''u1'' 0 [1, 2] ], [SetChunk ''u1'' 1 [3, 4] ], [SetChunk ''u1'' 2 [5] ],
      [SetMeta ''u1'' ((newImageMeta 2 pngFile 7 ''aa#'')\<lparr>completed := True\<rparr>)] ] \<and>
   serveImage Map.empty (runWrites emptyKv (take 3 (plannedWrites 2 toyMd5 emptyKv pngFile env1)))
       ''u1'' =
     (textResponse 404 ''Image not found or not yet completed'', Map.empty) \<and>
   metas (runWrites emptyKv (plannedWrites 2 toyMd5 emptyKv pngFile env1)) ''u1'' =
     Some ((newImageMeta 2 pngFile 7 ''aa#'')\<lparr>completed := True\<rparr>)"
proof -
  have fresh: "resolve emptyKv (toyMd5 (fileBytes pngFile)) = Fresh" by code_simp
  then have stores: "\<forall>i. resolve emptyKv (toyMd5 (fileBytes pngFile)) \<noteq> Cached i" by simp
  have id: "''u1'' = objectId toyMd5 emptyKv pngFile env1" by code_simp
  have d: "toyMd5 (fileBytes pngFile) = ''aa#''" by code_simp
  have t: "now env1 = 7" by (simp add: env1_def)
  have n: "[0..<chunkCount (length (fileBytes pngFile)) 2] = [0, 1, 2]" by code_simp
  have c: "chunkAt 2 (fileBytes pngFile) 0 = [1, 2]"
    "chunkAt 2 (fileBytes pngFile) (Suc 0) = [3, 4]"
    "chunkAt 2 (fileBytes pngFile) 2 = [5]" by code_simp+
  have fresh': "resolve emptyKv ''aa#'' = Fresh" by code_simp
  have miss: "(Map.empty :: string \<rightharpoonup> bytes) ''u1'' = None" by simp
  note inst = two_phase_write [OF stores id refl refl, of 2]
  from inst [THEN conjunct1] have shape: "plannedWrites 2 toyMd5 emptyKv pngFile env1 =
     [ [SetMeta ''u1'' (newImageMeta 2 pngFile 7 ''aa#''), SetMd5 ''aa#'' ''u1''],
      [SetChunk ''u1'' 0 [1, 2] ], [SetChunk ''u1'' 1 [3, 4] ], [SetChunk ''u1'' 2 [5] ],
      [SetMeta ''u1'' ((newImageMeta 2 pngFile 7 ''aa#'')\<lparr>completed := True\<rparr>)] ]"
    unfolding d t n by (simp add: c fresh')
  then have len: "(3::nat) < length (plannedWrites 2 toyMd5 emptyKv pngFile env1)" by simp
  note mid = inst [THEN conjunct2, THEN conjunct2, THEN conjunct1, rule_format, of 3]
  have pre: "3 < length (plannedWrites 2 toyMd5 emptyKv pngFile env1) \<and>
      ((3::nat) = 0 \<and> resolve emptyKv (toyMd5 (fileBytes pngFile)) = Fresh \<longrightarrow>
         metas emptyKv ''u1'' = None)"
    using len by simp
  have served: "serveImage Map.empty
      (runWrites emptyKv (take 3 (plannedWrites 2 toyMd5 emptyKv pngFile env1))) ''u1'' =
     (textResponse 404 ''Image not found or not yet completed'', Map.empty)"
    by (rule mid [OF pre, THEN conjunct2, THEN conjunct1, rule_format]) simp
  note fin = inst [THEN conjunct2, THEN conjunct2, THEN conjunct2]
  have completed_last: "metas (runWrites emptyKv (plannedWrites 2 toyMd5 emptyKv pngFile env1)) ''u1'' =
     Some ((newImageMeta 2 pngFile 7 ''aa#'')\<lparr>completed := True\<rparr>)"
    using fin unfolding d t .
  from fresh shape served completed_last show ?thesis by (intro conjI)
qed

section \<open>The loop over the entries\<close>

lemma processAll_step:
  "processAll origin cs h s ((en, e) # rest) =
     (fst (processAll origin cs h (fst (processEntry origin cs h s en e)) rest),
      snd (processEntry origin cs h s en e) #
      snd (processAll origin cs h (fst (processEntry origin cs h s en e)) rest))"
  by (simp split: prod.splits)

lemma length_processAll:
  "length (snd (processAll origin cs h s files)) = length files"
proof (induction files arbitrary: s)
  case Nil
  then show ?case by simp
next
  case (Cons x rest)
  obtain en e where x: "x = (en, e)" by (cases x)
  from Cons.IH show ?case
    by (simp add: x processAll_step del: processAll.simps(2))
qed

lemma nth_processAll:
  "i < length files \<Longrightarrow>
   snd (processAll origin cs h s files) ! i =
     snd (processEntry origin cs h (fst (processAll origin cs h s (take i files)))
            (fst (files ! i)) (snd (files ! i)))"
proof (induction files arbitrary: s i)
  case Nil
  then show ?case by simp
next
  case (Cons x rest)
  obtain en e where x: "x = (en, e)" by (cases x)
  show ?case
  proof (cases i)
    case 0
    then show ?thesis by (simp add: x processAll_step del: processAll.simps(2))
  next
    case (Suc j)
    with Cons.prems have "j < length rest" by simp
    from Cons.IH [OF this] Suc show ?thesis
      by (simp add: x processAll_step del: processAll.simps(2))
  qed
qed

section \<open>Deduplication\<close>

lemma status_simps:
  "resStatus (errorResult fname msg) = ''error''"
  "resStatus (okResult fname url st) = st"
  "resUrl (okResult fname url st) = Some url"
  "resUrl (errorResult fname msg) = None"
  "resName (okResult fname url st) = fname"
  "resName (errorResult fname msg) = fname"
  by (simp_all add: errorResult_def okResult_def)

lemma attempt_cases:
  "attempt s ws f = (s', None) \<Longrightarrow> s' = runWrites s ws"
  by (auto simp: attempt_def split: fault.splits if_splits)

lemma processFile_success:
  assumes "resStatus (snd (processFile origin cs h s f e)) \<noteq> ''error''"
  shows "processFile origin cs h s f e =
           (runWrites s (plannedWrites cs h s f e),
            (case resolve s (h (fileBytes f)) of
               Cached i \<Rightarrow> okResult (fileName f) (origin @ ''/image/'' @ i) ''cached''
             | Overwrite i \<Rightarrow> okResult (fileName f) (imageUrl origin i (fileName f)) ''overwritten''
             | Fresh \<Rightarrow> okResult (fileName f) (imageUrl origin (uuid e) (fileName f)) ''uploaded''))"
proof (cases "fault e")
  case (ReadFault msg)
  with assms show ?thesis by (simp add: processFile_def status_simps)
next
  case NoFault
  then show ?thesis
    by (simp add: processFile_def plannedWrites_def Let_def attempt_def runWrites_Nil
        split: decision.splits)
next
  case (WriteFault n msg)
  show ?thesis
  proof (cases "resolve s (h (fileBytes f))")
    case (Cached i)
    with WriteFault show ?thesis
      by (simp add: processFile_def plannedWrites_def Let_def runWrites_Nil)
  next
    case (Overwrite i)
    with WriteFault assms show ?thesis
      by (simp add: processFile_def plannedWrites_def Let_def attempt_def status_simps
          split: if_splits)
  next
    case Fresh
    with WriteFault assms show ?thesis
      by (simp add: processFile_def plannedWrites_def Let_def attempt_def status_simps
          split: if_splits)
  qed
qed

lemma processFile_NoFault_ok:
  "fault e = NoFault \<Longrightarrow> resStatus (snd (processFile origin cs h s f e)) \<noteq> ''error''"
  by (simp add: processFile_def Let_def attempt_def status_simps split: decision.splits)

lemma processFile_Cached:
  assumes "resolve s (h (fileBytes f)) = Cached i" and "\<forall>msg. fault e \<noteq> ReadFault msg"
  shows "processFile origin cs h s f e = (s, okResult (fileName f) (origin @ ''/image/'' @ i) ''cached'')"
  using assms by (cases "fault e") (simp_all add: processFile_def Let_def)

text \<open>After an upload that did not fail, the digest resolves to a completed object.\<close>

lemma resolve_after_success:
  assumes ok: "resStatus (snd (processFile origin cs h s f e)) \<noteq> ''error''"
    and uuid: "uuid e \<noteq> []"
  shows "resolve (fst (processFile origin cs h s f e)) (h (fileBytes f)) =
           Cached (objectId h s f e)"
proof -
  let ?d = "h (fileBytes f)"
  let ?m = "newImageMeta cs f (now e) ?d"
  have st: "fst (processFile origin cs h s f e) = runWrites s (plannedWrites cs h s f e)"
    using processFile_success [OF ok] by simp
  show ?thesis
  proof (cases "resolve s ?d")
    case (Cached i)
    then show ?thesis
      by (simp add: st plannedWrites_def Let_def runWrites_Nil objectId_def)
  next
    case (Overwrite i)
    from resolve_Overwrite_indexed [OF Overwrite]
    have idx: "md5_to_id s ?d = Some i" "i \<noteq> []" by simp_all
    have "resolve (runWrites s (overwriteWrites cs i ?m (fileBytes f))) ?d = Cached i"
      unfolding resolve_Cached_iff
      by (simp add: md5_overwrite_done metas_overwrite_done idx)
    with Overwrite show ?thesis
      by (simp add: st plannedWrites_def Let_def objectId_def)
  next
    case Fresh
    have "resolve (runWrites s (uploadWrites cs (uuid e) ?m (fileBytes f))) ?d = Cached (uuid e)"
      unfolding resolve_Cached_iff
      by (simp add: md5_upload_done metas_upload_done uuid newImageMeta_fields)
    with Fresh show ?thesis
      by (simp add: st plannedWrites_def Let_def objectId_def)
  qed
qed

lemma url_after_success:
  assumes ok: "resStatus (snd (processFile origin cs h s f e)) \<noteq> ''error''"
  shows "\<exists>suffix. resUrl (snd (processFile origin cs h s f e)) =
           Some (origin @ ''/image/'' @ objectId h s f e @ suffix)"
  unfolding processFile_success [OF ok]
  by (cases "resolve s (h (fileBytes f))")
     (simp_all add: status_simps objectId_def imageUrl_def)

text \<open>Writes that set neither the metadata of an id nor the entry of a digest leave both as they are.\<close>

lemma commit_preserves:
  assumes "\<forall>k \<in> set w. (\<forall>m. k \<noteq> SetMeta i m) \<and> (\<forall>j. k \<noteq> SetMd5 d j)"
  shows "metas (commit s w) i = metas s i \<and> md5_to_id (commit s w) d = md5_to_id s d"
  using assms
proof (induction w arbitrary: s)
  case Nil
  then show ?case by (simp add: commit_def)
next
  case (Cons k w)
  have step: "metas (applySet s k) i = metas s i \<and> md5_to_id (applySet s k) d = md5_to_id s d"
    using Cons.prems by (cases k) auto
  have "commit s (k # w) = commit (applySet s k) w" by (simp add: commit_def)
  with Cons.IH [of "applySet s k"] Cons.prems step show ?case by simp
qed

lemma runWrites_preserves:
  assumes "\<forall>w \<in> set ws. \<forall>k \<in> set w. (\<forall>m. k \<noteq> SetMeta i m) \<and> (\<forall>j. k \<noteq> SetMd5 d j)"
  shows "metas (runWrites s ws) i = metas s i \<and> md5_to_id (runWrites s ws) d = md5_to_id s d"
  using assms
proof (induction ws arbitrary: s)
  case Nil
  then show ?case by (simp add: runWrites_Nil)
next
  case (Cons w ws)
  from Cons.prems have "\<forall>k \<in> set w. (\<forall>m. k \<noteq> SetMeta i m) \<and> (\<forall>j. k \<noteq> SetMd5 d j)"
    by simp
  from commit_preserves [OF this, of s] Cons.IH [of "commit s w"] Cons.prems
  show ?case by (simp add: runWrites_Cons)
qed

lemma processFile_state_prefix:
  "\<exists>n. fst (processFile origin cs h s f e) = runWrites s (take n (plannedWrites cs h s f e))"
proof (cases "resStatus (snd (processFile origin cs h s f e)) = ''error''")
  case False
  from processFile_success [OF this]
  have "fst (processFile origin cs h s f e) =
        runWrites s (take (length (plannedWrites cs h s f e)) (plannedWrites cs h s f e))"
    by simp
  then show ?thesis ..
next
  case True
  show ?thesis
  proof (cases "fault e")
    case NoFault
    with True processFile_NoFault_ok [of e origin cs h s f] show ?thesis by simp
  next
    case (ReadFault msg)
    then have "fst (processFile origin cs h s f e) = runWrites s (take 0 (plannedWrites cs h s f e))"
      by (simp add: processFile_def runWrites_Nil)
    then show ?thesis ..
  next
    case (WriteFault n msg)
    show ?thesis
    proof (cases "n < length (plannedWrites cs h s f e)")
      case True
      have "fst (processFile origin cs h s f e) = runWrites s (take n (plannedWrites cs h s f e))"
        using WriteFault True
        by (cases "resolve s (h (fileBytes f))")
           (simp_all add: processFile_def plannedWrites_def Let_def attempt_def)
      then show ?thesis ..
    next
      case False
      have "fst (processFile origin cs h s f e) =
          runWrites s (take (length (plannedWrites cs h s f e)) (plannedWrites cs h s f e))"
        using WriteFault False
        by (cases "resolve s (h (fileBytes f))")
           (simp_all add: processFile_def plannedWrites_def Let_def attempt_def runWrites_Nil)
      then show ?thesis ..
    qed
  qed
qed

text \<open>
  A completed, indexed object stays so under any later upload, failed or not, provided
  a new UUID is not the id of that object.
\<close>

lemma Cached_stable:
  assumes c: "resolve s d = Cached i"
    and fresh: "uuid e \<noteq> i"
  shows "resolve (fst (processFile origin cs h s f e)) d = Cached i"
proof -
  let ?d' = "h (fileBytes f)"
  let ?ws = "plannedWrites cs h s f e"
  from c obtain m where idx: "md5_to_id s d = Some i" "i \<noteq> []"
    and m: "metas s i = Some m" "completed m"
    unfolding resolve_Cached_iff by blast
  have untouched: "\<forall>w \<in> set ?ws. \<forall>k \<in> set w. (\<forall>m. k \<noteq> SetMeta i m) \<and> (\<forall>j. k \<noteq> SetMd5 d j)"
  proof (cases "resolve s ?d'")
    case (Cached j)
    then show ?thesis by (simp add: plannedWrites_def Let_def)
  next
    case (Overwrite j)
    from resolve_Overwrite_incomplete [OF Overwrite] m have "j \<noteq> i" by auto
    with Overwrite show ?thesis
      by (auto simp: plannedWrites_def Let_def overwriteWrites_def chunkWrites_def)
  next
    case Fresh
    with c have "?d' \<noteq> d" by auto
    with Fresh fresh show ?thesis
      by (auto simp: plannedWrites_def Let_def uploadWrites_def chunkWrites_def
          newImageMeta_fields)
  qed
  obtain n where st: "fst (processFile origin cs h s f e) = runWrites s (take n ?ws)"
    using processFile_state_prefix by blast
  have "\<forall>w \<in> set (take n ?ws). \<forall>k \<in> set w. (\<forall>m. k \<noteq> SetMeta i m) \<and> (\<forall>j. k \<noteq> SetMd5 d j)"
    using untouched by (meson in_set_takeD)
  from runWrites_preserves [OF this, of s]
  have "metas (runWrites s (take n ?ws)) i = metas s i"
    "md5_to_id (runWrites s (take n ?ws)) d = md5_to_id s d"
    by simp_all
  then show ?thesis
    unfolding st resolve_Cached_iff using idx m by simp
qed

lemma Cached_stable_batch:
  assumes "resolve s d = Cached i"
    and "\<forall>x \<in> set between. uuid (snd x) \<noteq> i"
  shows "resolve (fst (processAll origin cs h s between)) d = Cached i"
  using assms
proof (induction between arbitrary: s)
  case Nil
  then show ?case by simp
next
  case (Cons x rest)
  obtain en e where x: "x = (en, e)" by (cases x)
  have "resolve (fst (processEntry origin cs h s en e)) d = Cached i"
  proof (cases en)
    case (StringEntry v)
    with Cons.prems show ?thesis by (simp add: processEntry_def)
  next
    case (FileEntry f)
    with Cons.prems x show ?thesis by (simp add: processEntry_def Cached_stable)
  qed
  from Cons.IH [OF this] Cons.prems show ?case
    by (simp add: x processAll_step del: processAll.simps(2))
qed

text \<open>
  C3. When an upload of a payload has completed (its outcome is not an error), a later
  upload of the same bytes, under any file name and from any origin, takes the branch
  that writes nothing: the store is unchanged, the status is cached, and the URL names
  the object id of the first upload. This holds directly after the first upload and
  after any further uploads in between, failed or not. The UUID of the first upload is
  not the empty string, no upload in between draws the id of the object as its UUID,
  and the look-ups of the second upload do not throw.
\<close>

theorem dedup_idempotent:
  assumes "resStatus (snd (processFile origin cs calculateMd5 s f1 e1)) \<noteq> ''error''"
    and "uuid e1 \<noteq> []"
    and "\<forall>x \<in> set between. uuid (snd x) \<noteq> objectId calculateMd5 s f1 e1"
    and "fileBytes f2 = fileBytes f1"
    and "\<forall>msg. fault e2 \<noteq> ReadFault msg"
    and "s1 = fst (processAll origin cs calculateMd5
                    (fst (processFile origin cs calculateMd5 s f1 e1)) between)"
  shows "processFile origin2 cs calculateMd5 s1 f2 e2 =
           (s1, okResult (fileName f2)
                  (origin2 @ ''/image/'' @ objectId calculateMd5 s f1 e1) ''cached'') \<and>
         plannedWrites cs calculateMd5 s1 f2 e2 = [] \<and>
         objectId calculateMd5 s1 f2 e2 = objectId calculateMd5 s f1 e1 \<and>
         (\<exists>suffix. resUrl (snd (processFile origin cs calculateMd5 s f1 e1)) =
            Some (origin @ ''/image/'' @ objectId calculateMd5 s f1 e1 @ suffix))"
proof -
  have "resolve (fst (processFile origin cs calculateMd5 s f1 e1)) (calculateMd5 (fileBytes f1)) =
          Cached (objectId calculateMd5 s f1 e1)"
    using assms(1,2) by (rule resolve_after_success)
  from Cached_stable_batch [OF this assms(3)]
  have r: "resolve s1 (calculateMd5 (fileBytes f2)) = Cached (objectId calculateMd5 s f1 e1)"
    by (simp add: assms(4,6))
  have "processFile origin2 cs calculateMd5 s1 f2 e2 =
           (s1, okResult (fileName f2)
                  (origin2 @ ''/image/'' @ objectId calculateMd5 s f1 e1) ''cached'')"
    using r assms(5) by (rule processFile_Cached)
  moreover have "plannedWrites cs calculateMd5 s1 f2 e2 = []"
    using r by (simp add: plannedWrites_def Let_def)
  moreover have "objectId calculateMd5 s1 f2 e2 = objectId calculateMd5 s f1 e1"
    using r by (simp add: objectId_def)
  ultimately show ?thesis
    using url_after_success [OF assms(1)] by simp
qed

theorem dedup_idempotent_witness:
  "resStatus (snd (processFile ''http://h'' 2 toyMd5 emptyKv pngFile env1)) \<noteq> ''error'' \<and>
   uuid env1 \<noteq> [] \<and>
   uuid envFail \<noteq> ''u1'' \<and> uuid env2 \<noteq> ''u1'' \<and>
   processFile ''http://other'' 2 toyMd5
       (fst (processAll ''http://h'' 2 toyMd5 kvStored laterBatch))
       (pngFile\<lparr>fileName := ''copy.jpg''\<rparr>) env2 =
     (fst (processAll ''http://h'' 2 toyMd5 kvStored laterBatch),
      okResult ''copy.jpg'' ''http://other/image/u1'' ''cached'') \<and>
   plannedWrites 2 toyMd5 (fst (processAll ''http://h'' 2 toyMd5 kvStored laterBatch))
       (pngFile\<lparr>fileName := ''copy.jpg''\<rparr>) env2 = [] \<and>
   processFile ''http://other'' 2 toyMd5 kvStored (pngFile\<lparr>fileName := ''copy.jpg''\<rparr>) env2 =
     (kvStored, okResult ''copy.jpg'' ''http://other/image/u1'' ''cached'')"
proof -
  have ok: "resStatus (snd (processFile ''http://h'' 2 toyMd5 emptyKv pngFile env1)) \<noteq> ''error''"
    by code_simp
  have u: "uuid env1 \<noteq> []" by (simp add: env1_def)
  have i: "objectId toyMd5 emptyKv pngFile env1 = ''u1''" by code_simp
  have others: "uuid envFail \<noteq> ''u1''" "uuid env2 \<noteq> ''u1''"
    by (simp_all add: envFail_def env2_def)
  then have fr: "\<forall>x \<in> set laterBatch. uuid (snd x) \<noteq> objectId toyMd5 emptyKv pngFile env1"
    by (simp add: laterBatch_def i)
  have none: "\<forall>x \<in> set ([] :: (entry \<times> env) list). uuid (snd x) \<noteq> objectId toyMd5 emptyKv pngFile env1"
    by simp
  have b: "fileBytes (pngFile\<lparr>fileName := ''copy.jpg''\<rparr>) = fileBytes pngFile" by simp
  have r: "\<forall>msg. fault env2 \<noteq> ReadFault msg" by (simp add: env2_def)
  have s1: "fst (processAll ''http://h'' 2 toyMd5 kvStored laterBatch) =
      fst (processAll ''http://h'' 2 toyMd5
             (fst (processFile ''http://h'' 2 toyMd5 emptyKv pngFile env1)) laterBatch)"
    by (simp add: kvStored_def)
  have s0: "kvStored =
      fst (processAll ''http://h'' 2 toyMd5
             (fst (processFile ''http://h'' 2 toyMd5 emptyKv pngFile env1)) [])"
    by (simp add: kvStored_def)
  note later = dedup_idempotent [OF ok u fr b r s1, of "''http://other''"]
  note direct = dedup_idempotent [OF ok u none b r s0, of "''http://other''"]
  from later [THEN conjunct1] later [THEN conjunct2, THEN conjunct1] direct [THEN conjunct1]
    ok u others
  show ?thesis by (simp add: i)
qed

section \<open>The shape of the chunks\<close>

lemma length_splitChunks: "length (splitChunks cs P) = chunkCount (length P) cs"
  by (simp add: splitChunks_def)

lemma nth_splitChunks:
  "i < chunkCount (length P) cs \<Longrightarrow> splitChunks cs P ! i = chunkAt cs P i"
  by (simp add: splitChunks_def)

lemma length_chunkAt: "length (chunkAt cs P i) = min cs (length P - i * cs)"
  by (simp add: chunkAt_take min.commute)

lemma div_mult_add_less: "r < cs \<Longrightarrow> (q * cs + r) div (cs::nat) = q"
  by simp

lemma chunkCount_cases:
  assumes "0 < cs"
  shows "chunkCount len cs = (if len mod cs = 0 then len div cs else len div cs + 1)"
proof -
  define q r where "q = len div cs" and "r = len mod cs"
  have len: "len = q * cs + r" and r: "r < cs"
    using assms by (simp_all add: q_def r_def)
  have "(len + cs - 1) div cs = (if r = 0 then q else q + 1)"
  proof (cases "r = 0")
    case True
    have "(q * cs + (cs - 1)) div cs = q"
      using assms by (intro div_mult_add_less) simp
    moreover have "len + cs - 1 = q * cs + (cs - 1)"
      using True assms by (simp add: len)
    ultimately have "(len + cs - 1) div cs = q" by (simp only:)
    with True show ?thesis by simp
  next
    case False
    have "(Suc q * cs + (r - 1)) div cs = Suc q"
      using r by (intro div_mult_add_less) simp
    moreover have "len + cs - 1 = Suc q * cs + (r - 1)"
      using False assms by (simp add: len)
    ultimately have "(len + cs - 1) div cs = Suc q" by (simp only:)
    with False show ?thesis by simp
  qed
  then show ?thesis
    unfolding chunkCount_div q_def r_def .
qed


lemma length_inner_chunk:
  assumes "0 < cs" and "Suc i < chunkCount (length P) cs"
  shows "length (chunkAt cs P i) = cs"
proof -
  have "0 < length P"
    using assms by (cases P) (simp_all add: chunkCount_div)
  from chunkCount_tight [OF assms(1) this]
  have "(chunkCount (length P) cs - 1) * cs < length P" .
  moreover have "Suc i * cs \<le> (chunkCount (length P) cs - 1) * cs"
    using assms(2) by (intro mult_le_mono1) simp
  ultimately have "i * cs + cs \<le> length P" by simp
  then show ?thesis by (simp add: length_chunkAt)
qed

lemma length_last_chunk:
  assumes "0 < cs" and "P \<noteq> []"
  shows "length (chunkAt cs P (chunkCount (length P) cs - 1)) =
           (if length P mod cs = 0 then cs else length P mod cs)"
proof -
  let ?L = "length P"
  have pos: "0 < ?L" using assms(2) by simp
  have split: "?L = ?L div cs * cs + ?L mod cs" by simp
  show ?thesis
  proof (cases "?L mod cs = 0")
    case True
    then have n: "chunkCount ?L cs = ?L div cs"
      using assms(1) by (simp add: chunkCount_cases)
    from True have full: "?L = ?L div cs * cs" using split by simp
    with pos have "0 < ?L div cs" by (cases "?L div cs") auto
    then have "(?L div cs - 1) * cs + cs = ?L div cs * cs"
      by (cases "?L div cs") simp_all
    with full have "?L - (?L div cs - 1) * cs = cs" by linarith
    with True n show ?thesis by (simp add: length_chunkAt)
  next
    case False
    then have n: "chunkCount ?L cs - 1 = ?L div cs"
      using assms(1) by (simp add: chunkCount_cases)
    have "?L - ?L div cs * cs = ?L mod cs"
      by (metis split add_diff_cancel_left')
    moreover have "?L mod cs < cs" using assms(1) by simp
    ultimately show ?thesis using False n by (simp add: length_chunkAt)
  qed
qed

text \<open>An upload that stored bytes is read back exactly, with its MIME type.\<close>

lemma served_after_store:
  assumes cs: "0 < cs"
    and st: "resStatus (snd (processFile origin cs h s f e)) = ''uploaded'' \<or>
             resStatus (snd (processFile origin cs h s f e)) = ''overwritten''"
    and miss: "cache (objectId h s f e) = None"
  shows "serveImage cache (fst (processFile origin cs h s f e)) (objectId h s f e) =
           (imageResponse (fileBytes f) (fileType f),
            cache(objectId h s f e \<mapsto> fileBytes f))"
proof -
  let ?d = "h (fileBytes f)"
  let ?m = "newImageMeta cs f (now e) ?d"
  let ?m' = "?m\<lparr>completed := True\<rparr>"
  let ?i = "objectId h s f e"
  let ?s' = "fst (processFile origin cs h s f e)"
  from st have ok: "resStatus (snd (processFile origin cs h s f e)) \<noteq> ''error''" by auto
  note eq = processFile_success [OF ok]
  have facts: "metas ?s' ?i = Some ?m' \<and>
               (\<forall>k < chunks ?m'. chunkRecs ?s' (?i, k) = Some (chunkAt cs (fileBytes f) k))"
  proof (cases "resolve s ?d")
    case (Cached i)
    with st eq show ?thesis by (simp add: status_simps)
  next
    case (Overwrite i)
    then show ?thesis
      by (simp add: eq plannedWrites_def Let_def objectId_def metas_overwrite_done
          chunkRecs_overwrite_done)
  next
    case Fresh
    then show ?thesis
      by (simp add: eq plannedWrites_def Let_def objectId_def metas_upload_done
          chunkRecs_upload_done)
  qed
  have "serveStored cache ?s' ?i = (imageResponse (fileBytes f) (mimeType ?m'), cache(?i \<mapsto> fileBytes f))"
    using cs facts
    by (intro serveStored_complete [where cs = cs and bs = "fileBytes f" and m = ?m'])
       (simp_all add: newImageMeta_fields)
  then show ?thesis
    using miss by (simp add: serveImage_miss newImageMeta_fields)
qed

lemma chunkCount_0: "chunkCount 0 cs = 0"
  by (simp add: chunkCount_def)

lemma two_writes_when_empty:
  assumes "fileBytes f = []"
    and "resStatus (snd (processFile origin cs h s f e)) = ''uploaded'' \<or>
         resStatus (snd (processFile origin cs h s f e)) = ''overwritten''"
  shows "length (plannedWrites cs h s f e) = 2"
proof -
  from assms(2) have ok: "resStatus (snd (processFile origin cs h s f e)) \<noteq> ''error''" by auto
  have n: "chunks (newImageMeta cs f (now e) (h [])) = 0"
    using assms(1) by (simp add: newImageMeta_fields chunkCount_0)
  show ?thesis
  proof (cases "resolve s (h (fileBytes f))")
    case (Cached i)
    with assms(2) processFile_success [OF ok] show ?thesis by (simp add: status_simps)
  next
    case (Overwrite i)
    then show ?thesis
      using n assms(1) by (simp add: plannedWrites_def Let_def length_overwriteWrites)
  next
    case Fresh
    then show ?thesis
      using n assms(1) by (simp add: plannedWrites_def Let_def length_uploadWrites)
  qed
qed

text \<open>
  C8. For a chunk size of at least 1, the chunks of a payload of length L are
  \<open>ceil(L / cs)\<close> in number; every chunk but the last has length \<open>cs\<close>; the last has
  length \<open>L mod cs\<close>, or \<open>cs\<close> when \<open>cs\<close> divides L; an empty payload has no chunks.
  An upload of an empty file that stores it issues two writes only, the metadata with
  completed = false and the metadata with completed = true, and a read that the cache
  does not answer returns 0 bytes with the file's MIME type.
\<close>

theorem split_shape:
  assumes "0 < cs"
  shows "length (splitChunks cs P) = nat \<lceil>real (length P) / real cs\<rceil> \<and>
         (\<forall>i. Suc i < length (splitChunks cs P) \<longrightarrow> length (splitChunks cs P ! i) = cs) \<and>
         (P \<noteq> [] \<longrightarrow> splitChunks cs P \<noteq> [] \<and>
            length (last (splitChunks cs P)) =
              (if length P mod cs = 0 then cs else length P mod cs)) \<and>
         (P = [] \<longrightarrow> splitChunks cs P = []) \<and>
         (fileBytes f = [] \<and>
          (resStatus (snd (processFile origin cs calculateMd5 s f e)) = ''uploaded'' \<or>
           resStatus (snd (processFile origin cs calculateMd5 s f e)) = ''overwritten'') \<longrightarrow>
            length (plannedWrites cs calculateMd5 s f e) = 2 \<and>
            (\<forall>cache. cache (objectId calculateMd5 s f e) = None \<longrightarrow>
               fst (serveImage cache (fst (processFile origin cs calculateMd5 s f e))
                      (objectId calculateMd5 s f e)) =
                 imageResponse [] (fileType f)))"
proof (intro conjI allI impI)
  show "length (splitChunks cs P) = nat \<lceil>real (length P) / real cs\<rceil>"
    by (simp add: length_splitChunks chunkCount_def)
next
  fix i
  assume "Suc i < length (splitChunks cs P)"
  then have i: "Suc i < chunkCount (length P) cs" by (simp add: length_splitChunks)
  then have "splitChunks cs P ! i = chunkAt cs P i" by (simp add: nth_splitChunks)
  with length_inner_chunk [OF assms i] show "length (splitChunks cs P ! i) = cs" by simp
next
  assume ne: "P \<noteq> []"
  have "0 < chunkCount (length P) cs"
    using chunkCount_covers [OF assms, of "length P"] ne
    by (cases "chunkCount (length P) cs") auto
  then show nonempty: "splitChunks cs P \<noteq> []"
    by (simp add: splitChunks_def)
  then have "last (splitChunks cs P) = splitChunks cs P ! (chunkCount (length P) cs - 1)"
    by (simp add: last_conv_nth length_splitChunks)
  also have "\<dots> = chunkAt cs P (chunkCount (length P) cs - 1)"
    using \<open>0 < chunkCount (length P) cs\<close> by (simp add: nth_splitChunks)
  finally show "length (last (splitChunks cs P)) =
      (if length P mod cs = 0 then cs else length P mod cs)"
    using length_last_chunk [OF assms ne] by simp
next
  assume "P = []"
  then show "splitChunks cs P = []" by (simp add: splitChunks_def chunkCount_0)
next
  assume h: "fileBytes f = [] \<and>
          (resStatus (snd (processFile origin cs calculateMd5 s f e)) = ''uploaded'' \<or>
           resStatus (snd (processFile origin cs calculateMd5 s f e)) = ''overwritten'')"
  then show "length (plannedWrites cs calculateMd5 s f e) = 2"
    by (intro two_writes_when_empty [where origin = origin]) simp_all
next
  fix cache :: "string \<rightharpoonup> bytes"
  assume h: "fileBytes f = [] \<and>
          (resStatus (snd (processFile origin cs calculateMd5 s f e)) = ''uploaded'' \<or>
           resStatus (snd (processFile origin cs calculateMd5 s f e)) = ''overwritten'')"
    and miss: "cache (objectId calculateMd5 s f e) = None"
  from h have st: "resStatus (snd (processFile origin cs calculateMd5 s f e)) = ''uploaded'' \<or>
           resStatus (snd (processFile origin cs calculateMd5 s f e)) = ''overwritten''"
    by simp
  from served_after_store [where cache = cache, OF assms st miss] h
  show "fst (serveImage cache (fst (processFile origin cs calculateMd5 s f e))
                      (objectId calculateMd5 s f e)) =
                 imageResponse [] (fileType f)"
    by simp
qed

theorem split_shape_witness:
  "(0::nat) < 2 \<and> splitChunks 2 [1, 2, 3, 4, 5] = [ [1, 2], [3, 4], [5] ] \<and>
   length (splitChunks 2 [1, 2, 3, 4, 5]) = nat \<lceil>real (length [1, 2, 3, 4, 5 :: byte]) / real 2\<rceil> \<and>
   length (last (splitChunks 2 [1, 2, 3, 4, 5])) = 1 \<and>
   fileBytes emptyFile = [] \<and>
   resStatus (snd (processFile ''http://h'' 2 toyMd5 emptyKv emptyFile env2)) = ''uploaded'' \<and>
   length (plannedWrites 2 toyMd5 emptyKv emptyFile env2) = 2 \<and>
   fst (serveImage Map.empty (fst (processFile ''http://h'' 2 toyMd5 emptyKv emptyFile env2)) ''u2'') =
     imageResponse [] ''application/octet-stream''"
proof -
  have pos: "(0::nat) < 2" by simp
  have sp: "splitChunks 2 [1, 2, 3, 4, 5] = [ [1, 2], [3, 4], [5] ]" by code_simp
  have e: "fileBytes emptyFile = []" by (simp add: emptyFile_def)
  have st: "resStatus (snd (processFile ''http://h'' 2 toyMd5 emptyKv emptyFile env2)) = ''uploaded''"
    by code_simp
  have i: "objectId toyMd5 emptyKv emptyFile env2 = ''u2''" by code_simp
  have ty: "fileType emptyFile = ''application/octet-stream''" by (simp add: emptyFile_def)
  have ne: "[1, 2, 3, 4, 5 :: byte] \<noteq> []" by simp
  note inst = split_shape [OF pos, of "[1, 2, 3, 4, 5]" emptyFile "''http://h''" toyMd5 emptyKv env2]
  have a: "length (splitChunks 2 [1, 2, 3, 4, 5]) = nat \<lceil>real (length [1, 2, 3, 4, 5 :: byte]) / real 2\<rceil>"
    using inst by (rule conjunct1)
  have b: "length (last (splitChunks 2 [1, 2, 3, 4, 5])) = 1"
    using inst [THEN conjunct2, THEN conjunct2, THEN conjunct1, rule_format, OF ne] by simp
  note emp = inst [THEN conjunct2, THEN conjunct2, THEN conjunct2, THEN conjunct2, rule_format]
  have pre: "fileBytes emptyFile = [] \<and>
          (resStatus (snd (processFile ''http://h'' 2 toyMd5 emptyKv emptyFile env2)) = ''uploaded'' \<or>
           resStatus (snd (processFile ''http://h'' 2 toyMd5 emptyKv emptyFile env2)) = ''overwritten'')"
    using e st by simp
  have c: "length (plannedWrites 2 toyMd5 emptyKv emptyFile env2) = 2"
    using emp [OF pre] by (rule conjunct1)
  have d: "fst (serveImage Map.empty (fst (processFile ''http://h'' 2 toyMd5 emptyKv emptyFile env2)) ''u2'') =
     imageResponse [] ''application/octet-stream''"
    using emp [OF pre, THEN conjunct2, rule_format, of Map.empty] by (simp add: i ty)
  from pos sp a b e st c d show ?thesis by (intro conjI)
qed

section \<open>The chunk size of the source\<close>

lemma KV_CHUNK_SIZE_pos: "0 < KV_CHUNK_SIZE"
  by (simp add: KV_CHUNK_SIZE_def)

text \<open>
  The scenario of a 120 KiB upload at the chunk size of the source: three chunks, of
  50 KiB, 50 KiB and 20 KiB.
\<close>

lemma chunks_120KiB:
  assumes "length P = 120 * 1024"
  shows "map length (splitChunks KV_CHUNK_SIZE P) = [50 * 1024, 50 * 1024, 20 * 1024]"
proof -
  have n: "chunkCount 122880 51200 = 3"
    by (simp add: chunkCount_div)
  have idx: "[0..<3] = [0, 1, 2]" by (simp add: upt_rec)
  have "map length (splitChunks (50 * 1024) P) =
        map (\<lambda>i. min (50 * 1024) (120 * 1024 - i * (50 * 1024))) [0..<3]"
    using assms by (simp add: splitChunks_def n length_chunkAt comp_def)
  then show ?thesis
    unfolding idx KV_CHUNK_SIZE_def by simp
qed

section \<open>Batches of files\<close>

lemma processFile_ReadFault:
  "fault e = ReadFault msg \<Longrightarrow>
   processFile origin cs h s f e = (s, errorResult (fileName f) msg)"
  by (simp add: processFile_def)

lemma processFile_WriteFault:
  assumes "fault e = WriteFault n msg" and "n < length (plannedWrites cs h s f e)"
  shows "processFile origin cs h s f e =
           (runWrites s (take n (plannedWrites cs h s f e)), errorResult (fileName f) msg)"
  using assms
  by (cases "resolve s (h (fileBytes f))")
     (simp_all add: processFile_def plannedWrites_def Let_def attempt_def)

text \<open>
  C9. A request without files is answered 400. Otherwise the response carries one
  result per entry, in order: the result of processing that entry on the store left by
  the entries before it, whether they failed or not. A file whose processing throws
  (a failing look-up, or a failing write among those it issues) yields the entry
  \<open>{name, error, status: "error"}\<close> with its own name and the message thrown, and a
  string entry yields an error entry. The status is 500 when some result has status
  error and 200 otherwise.
\<close>

theorem upload_batch_isolation:
  "uploadHandler origin cs calculateMd5 s (Some []) = (s, textResponse 400 ''No files uploaded'') \<and>
   (files \<noteq> [] \<longrightarrow>
      uploadHandler origin cs calculateMd5 s (Some files) =
        (fst (processAll origin cs calculateMd5 s files),
         \<lparr>respStatus =
            (if \<exists>r \<in> set (snd (processAll origin cs calculateMd5 s files)).
                  resStatus r = ''error'' then 500 else 200),
          respBody = Json (snd (processAll origin cs calculateMd5 s files)),
          contentType = Some ''application/json''\<rparr>) \<and>
      length (snd (processAll origin cs calculateMd5 s files)) = length files \<and>
      (\<forall>i < length files.
         snd (processAll origin cs calculateMd5 s files) ! i =
           snd (processEntry origin cs calculateMd5
                  (fst (processAll origin cs calculateMd5 s (take i files)))
                  (fst (files ! i)) (snd (files ! i))))) \<and>
   (\<forall>msg. fault e = ReadFault msg \<longrightarrow>
      processEntry origin cs calculateMd5 s (FileEntry f) e = (s, errorResult (fileName f) msg)) \<and>
   (\<forall>n msg. fault e = WriteFault n msg \<and> n < length (plannedWrites cs calculateMd5 s f e) \<longrightarrow>
      processEntry origin cs calculateMd5 s (FileEntry f) e =
        (runWrites s (take n (plannedWrites cs calculateMd5 s f e)),
         errorResult (fileName f) msg)) \<and>
   processEntry origin cs calculateMd5 s (StringEntry v) e =
     (s, errorResult ''unknown'' ''Invalid file data'') \<and>
   resStatus (errorResult fname msg') = ''error''"
proof (intro conjI impI allI)
  show "uploadHandler origin cs calculateMd5 s (Some []) =
      (s, textResponse 400 ''No files uploaded'')"
    by (simp add: uploadHandler_def)
next
  assume "files \<noteq> []"
  then show "uploadHandler origin cs calculateMd5 s (Some files) =
        (fst (processAll origin cs calculateMd5 s files),
         \<lparr>respStatus =
            (if \<exists>r \<in> set (snd (processAll origin cs calculateMd5 s files)).
                  resStatus r = ''error'' then 500 else 200),
          respBody = Json (snd (processAll origin cs calculateMd5 s files)),
          contentType = Some ''application/json''\<rparr>)"
    by (simp add: uploadHandler_def list_ex_iff split: prod.splits)
next
  show "length (snd (processAll origin cs calculateMd5 s files)) = length files"
    by (rule length_processAll)
next
  fix i
  assume "i < length files"
  then show "snd (processAll origin cs calculateMd5 s files) ! i =
           snd (processEntry origin cs calculateMd5
                  (fst (processAll origin cs calculateMd5 s (take i files)))
                  (fst (files ! i)) (snd (files ! i)))"
    by (rule nth_processAll)
next
  fix msg
  assume "fault e = ReadFault msg"
  then show "processEntry origin cs calculateMd5 s (FileEntry f) e =
      (s, errorResult (fileName f) msg)"
    by (simp add: processEntry_def processFile_ReadFault)
next
  fix n msg
  assume "fault e = WriteFault n msg \<and> n < length (plannedWrites cs calculateMd5 s f e)"
  then show "processEntry origin cs calculateMd5 s (FileEntry f) e =
        (runWrites s (take n (plannedWrites cs calculateMd5 s f e)),
         errorResult (fileName f) msg)"
    by (simp add: processEntry_def processFile_WriteFault)
next
  show "processEntry origin cs calculateMd5 s (StringEntry v) e =
     (s, errorResult ''unknown'' ''Invalid file data'')"
    by (simp add: processEntry_def)
next
  show "resStatus (errorResult fname msg') = ''error''"
    by (simp add: status_simps)
qed

theorem upload_batch_isolation_witness:
  "batch3 \<noteq> [] \<and>
   snd (uploadHandler ''http://h'' 2 toyMd5 emptyKv (Some batch3)) =
     \<lparr>respStatus = 500,
      respBody = Json [okResult ''a.png'' ''http://h/image/u1.png'' ''uploaded'',
                       errorResult ''abc.'' ''storage unavailable'',
                       okResult ''e.bin'' ''http://h/image/u2.bin'' ''uploaded''],
      contentType = Some ''application/json''\<rparr> \<and>
   (2::nat) < length batch3 \<and>
   snd (processAll ''http://h'' 2 toyMd5 emptyKv batch3) ! 2 =
     snd (processEntry ''http://h'' 2 toyMd5
            (fst (processAll ''http://h'' 2 toyMd5 emptyKv (take 2 batch3)))
            (FileEntry emptyFile) env2) \<and>
   fault envFail = WriteFault 1 ''storage unavailable'' \<and>
   1 < length (plannedWrites 2 toyMd5 emptyKv dotFile envFail) \<and>
   snd (processEntry ''http://h'' 2 toyMd5 emptyKv (FileEntry dotFile) envFail) =
     errorResult ''abc.'' ''storage unavailable'' \<and>
   fault (env1\<lparr>fault := ReadFault ''no store''\<rparr>) = ReadFault ''no store'' \<and>
   processEntry ''http://h'' 2 toyMd5 emptyKv (FileEntry pngFile)
       (env1\<lparr>fault := ReadFault ''no store''\<rparr>) =
     (emptyKv, errorResult ''a.png'' ''no store'') \<and>
   snd (uploadHandler ''http://h'' 2 toyMd5 emptyKv (Some [(FileEntry pngFile, env1)])) =
     \<lparr>respStatus = 200,
      respBody = Json [okResult ''a.png'' ''http://h/image/u1.png'' ''uploaded''],
      contentType = Some ''application/json''\<rparr>"
proof -
  have ne: "batch3 \<noteq> []" by (simp add: batch3_def)
  have rs: "snd (processAll ''http://h'' 2 toyMd5 emptyKv batch3) =
      [okResult ''a.png'' ''http://h/image/u1.png'' ''uploaded'',
       errorResult ''abc.'' ''storage unavailable'',
       okResult ''e.bin'' ''http://h/image/u2.bin'' ''uploaded'']"
    by code_simp
  have len: "(2::nat) < length batch3" by (simp add: batch3_def)
  have third: "fst (batch3 ! 2) = FileEntry emptyFile" "snd (batch3 ! 2) = env2"
    by (simp_all add: batch3_def)
  have wf: "fault envFail = WriteFault 1 ''storage unavailable''" by (simp add: envFail_def)
  have wl: "1 < length (plannedWrites 2 toyMd5 emptyKv dotFile envFail)" by code_simp
  have nm: "fileName dotFile = ''abc.''" "fileName pngFile = ''a.png''"
    by (simp_all add: dotFile_def pngFile_def)
  have rf: "fault (env1\<lparr>fault := ReadFault ''no store''\<rparr>) = ReadFault ''no store''" by simp
  note inst = upload_batch_isolation [of "''http://h''" 2 toyMd5 emptyKv batch3 envFail dotFile]
  note batch = inst [THEN conjunct2, THEN conjunct1, rule_format, OF ne]
  have a: "snd (uploadHandler ''http://h'' 2 toyMd5 emptyKv (Some batch3)) =
     \<lparr>respStatus = 500,
      respBody = Json [okResult ''a.png'' ''http://h/image/u1.png'' ''uploaded'',
                       errorResult ''abc.'' ''storage unavailable'',
                       okResult ''e.bin'' ''http://h/image/u2.bin'' ''uploaded''],
      contentType = Some ''application/json''\<rparr>"
    using batch [THEN conjunct1] unfolding rs by (simp add: status_simps)
  have b: "snd (processAll ''http://h'' 2 toyMd5 emptyKv batch3) ! 2 =
     snd (processEntry ''http://h'' 2 toyMd5
            (fst (processAll ''http://h'' 2 toyMd5 emptyKv (take 2 batch3)))
            (FileEntry emptyFile) env2)"
    using batch [THEN conjunct2, THEN conjunct2, rule_format, OF len] by (simp only: third)
  have c: "snd (processEntry ''http://h'' 2 toyMd5 emptyKv (FileEntry dotFile) envFail) =
     errorResult ''abc.'' ''storage unavailable''"
    using inst [THEN conjunct2, THEN conjunct2, THEN conjunct2, THEN conjunct1, rule_format,
        of 1 "''storage unavailable''"] wf wl
    by (simp add: nm)
  have d: "processEntry ''http://h'' 2 toyMd5 emptyKv (FileEntry pngFile)
       (env1\<lparr>fault := ReadFault ''no store''\<rparr>) =
     (emptyKv, errorResult ''a.png'' ''no store'')"
    using upload_batch_isolation [of "''http://h''" 2 toyMd5 emptyKv batch3
        "env1\<lparr>fault := ReadFault ''no store''\<rparr>" pngFile,
        THEN conjunct2, THEN conjunct2, THEN conjunct1, rule_format, OF rf]
    by (simp add: nm)
  have one: "[(FileEntry pngFile, env1)] \<noteq> []" by simp
  have rs1: "snd (processAll ''http://h'' 2 toyMd5 emptyKv [(FileEntry pngFile, env1)]) =
      [okResult ''a.png'' ''http://h/image/u1.png'' ''uploaded'']"
    by code_simp
  have e: "snd (uploadHandler ''http://h'' 2 toyMd5 emptyKv (Some [(FileEntry pngFile, env1)])) =
     \<lparr>respStatus = 200,
      respBody = Json [okResult ''a.png'' ''http://h/image/u1.png'' ''uploaded''],
      contentType = Some ''application/json''\<rparr>"
    using upload_batch_isolation [of "''http://h''" 2 toyMd5 emptyKv "[(FileEntry pngFile, env1)]"
        env1 pngFile, THEN conjunct2, THEN conjunct1, rule_format, OF one, THEN conjunct1]
    unfolding rs1 by (simp add: status_simps)
  from ne a len b wf wl c rf d e show ?thesis by (intro conjI)
qed

section \<open>Joining chunks of the wrong length\<close>

lemma serveStored_overflow:
  assumes "metas s imageId = Some m" and "completed m"
    and "\<forall>i < chunks m. chunkRecs s (imageId, i) \<noteq> None"
    and "byteSize m < length (concat (map (\<lambda>i. the (chunkRecs s (imageId, i))) [0..<chunks m]))"
  shows "serveStored cache s imageId = (textResponse 500 ''Internal Server Error'', cache)"
proof -
  let ?cks = "map (\<lambda>i. the (chunkRecs s (imageId, i))) [0..<chunks m]"
  from assms(3) have "\<forall>i \<in> set [0..<chunks m].
      chunkRecs s (imageId, i) = Some (the (chunkRecs s (imageId, i)))"
    by simp
  then have "fetchChunks s imageId [0..<chunks m] = Inr ?cks"
    by (rule fetchChunks_present)
  moreover have "joinChunks ?cks (byteSize m) = None"
    using assms(4) by (rule joinChunks_overflow)
  ultimately show ?thesis
    using assms(1,2) by (simp add: serveStored_def)
qed

text \<open>
  C6. The claim as stated fails: chunks whose concatenation is shorter than the
  declared size are joined without an error, the rest of the buffer staying zero.
\<close>

theorem join_short_counterexample:
  "length (concat [ [1 :: byte] ]) \<noteq> 3 \<and>
   joinChunks [ [1] ] 3 = Some [1, 0, 0] \<and>
   length [1, 0, 0 :: byte] \<noteq> length (concat [ [1 :: byte] ]) \<and>
   fst (serveImage Map.empty kvShort ''x'') = imageResponse [1, 0, 0] ''image/png''"
  by code_simp

text \<open>
  C6, amended. A join that returns gives exactly \<open>totalSize\<close> bytes. When the chunks
  together are no longer than \<open>totalSize\<close>, it returns their concatenation followed by
  zero bytes up to \<open>totalSize\<close> (the concatenation itself when the lengths are equal);
  when they are longer, it fails. A read that the cache does not answer returns 500
  (image data incomplete) when a chunk record below the chunk count is missing, and 500
  (internal server error) when the records present are longer than the size.
\<close>

theorem join_total_size:
  "(\<forall>out. joinChunks cks totalSize = Some out \<longrightarrow> length out = totalSize) \<and>
   (length (concat cks) \<le> totalSize \<longrightarrow>
      joinChunks cks totalSize =
        Some (concat cks @ replicate (totalSize - length (concat cks)) 0)) \<and>
   (length (concat cks) = totalSize \<longrightarrow> joinChunks cks totalSize = Some (concat cks)) \<and>
   (totalSize < length (concat cks) \<longrightarrow> joinChunks cks totalSize = None) \<and>
   (\<forall>m i. cache imageId = None \<and> metas s imageId = Some m \<and> completed m \<and>
          i < chunks m \<and> chunkRecs s (imageId, i) = None \<longrightarrow>
      fst (serveImage cache s imageId) = textResponse 500 ''Image data incomplete'') \<and>
   (\<forall>m. cache imageId = None \<and> metas s imageId = Some m \<and> completed m \<and>
        (\<forall>i < chunks m. chunkRecs s (imageId, i) \<noteq> None) \<and>
        byteSize m < length (concat (map (\<lambda>i. the (chunkRecs s (imageId, i))) [0..<chunks m])) \<longrightarrow>
      fst (serveImage cache s imageId) = textResponse 500 ''Internal Server Error'')"
proof (intro conjI allI impI)
  fix out
  assume "joinChunks cks totalSize = Some out"
  then show "length out = totalSize"
    by (auto simp: joinChunks_def dest: length_joinLoop)
next
  assume "length (concat cks) \<le> totalSize"
  then show "joinChunks cks totalSize =
      Some (concat cks @ replicate (totalSize - length (concat cks)) 0)"
    by (rule joinChunks_padded)
next
  assume "length (concat cks) = totalSize"
  then show "joinChunks cks totalSize = Some (concat cks)"
    by (rule joinChunks_exact)
next
  assume "totalSize < length (concat cks)"
  then show "joinChunks cks totalSize = None"
    by (rule joinChunks_overflow)
next
  fix m i
  assume "cache imageId = None \<and> metas s imageId = Some m \<and> completed m \<and>
          i < chunks m \<and> chunkRecs s (imageId, i) = None"
  then show "fst (serveImage cache s imageId) = textResponse 500 ''Image data incomplete''"
    using serveStored_missing_chunk [of s imageId m i cache] by (simp add: serveImage_miss)
next
  fix m
  assume "cache imageId = None \<and> metas s imageId = Some m \<and> completed m \<and>
        (\<forall>i < chunks m. chunkRecs s (imageId, i) \<noteq> None) \<and>
        byteSize m < length (concat (map (\<lambda>i. the (chunkRecs s (imageId, i))) [0..<chunks m]))"
  then show "fst (serveImage cache s imageId) = textResponse 500 ''Internal Server Error''"
    by (simp add: serveImage_miss serveStored_overflow)
qed

theorem join_total_size_witness:
  "length (concat [ [1 :: byte] ]) \<le> 3 \<and>
   joinChunks [ [1] ] 3 = Some [1, 0, 0] \<and>
   length (concat [ [1, 2], [3 :: byte] ]) = 3 \<and>
   joinChunks [ [1, 2], [3] ] 3 = Some [1, 2, 3] \<and>
   3 < length (concat [ [1, 2], [3, 4 :: byte] ]) \<and>
   joinChunks [ [1, 2], [3, 4] ] 3 = None \<and>
   metas kvMissing ''x'' = Some pngMeta \<and> completed pngMeta \<and> 1 < chunks pngMeta \<and>
   chunkRecs kvMissing (''x'', 1) = None \<and>
   fst (serveImage Map.empty kvMissing ''x'') = textResponse 500 ''Image data incomplete'' \<and>
   metas kvLong ''x'' = Some pngMeta \<and>
   fst (serveImage Map.empty kvLong ''x'') = textResponse 500 ''Internal Server Error''"
proof -
  have miss: "(Map.empty :: string \<rightharpoonup> bytes) ''x'' = None" by simp
  have l1: "length (concat [ [1 :: byte] ]) \<le> 3" by simp
  have l2: "length (concat [ [1, 2], [3 :: byte] ]) = 3" by simp
  have l3: "3 < length (concat [ [1, 2], [3, 4 :: byte] ])" by simp
  have a: "joinChunks [ [1] ] 3 = Some [1, 0, 0]"
    using join_total_size [of "[ [1] ]" 3 Map.empty "''x''" emptyKv,
        THEN conjunct2, THEN conjunct1, rule_format, OF l1]
    by (simp add: numeral_3_eq_3)
  have b: "joinChunks [ [1, 2], [3] ] 3 = Some [1, 2, 3]"
    using join_total_size [of "[ [1, 2], [3] ]" 3 Map.empty "''x''" emptyKv,
        THEN conjunct2, THEN conjunct2, THEN conjunct1, rule_format, OF l2]
    by simp
  have c: "joinChunks [ [1, 2], [3, 4] ] 3 = None"
    using join_total_size [of "[ [1, 2], [3, 4] ]" 3 Map.empty "''x''" emptyKv,
        THEN conjunct2, THEN conjunct2, THEN conjunct2, THEN conjunct1, rule_format, OF l3] .
  have m1: "metas kvMissing ''x'' = Some pngMeta" "completed pngMeta" "1 < chunks pngMeta"
    "chunkRecs kvMissing (''x'', 1) = None"
    by (simp_all add: kvMissing_def emptyKv_def pngMeta_def)
  have d: "fst (serveImage Map.empty kvMissing ''x'') = textResponse 500 ''Image data incomplete''"
    using join_total_size [of "[]" 0 Map.empty "''x''" kvMissing,
        THEN conjunct2, THEN conjunct2, THEN conjunct2, THEN conjunct2, THEN conjunct1,
        rule_format, of pngMeta 1] miss m1
    by simp
  have m2: "metas kvLong ''x'' = Some pngMeta"
    by (simp add: kvLong_def emptyKv_def)
  have p2: "\<forall>i < chunks pngMeta. chunkRecs kvLong (''x'', i) \<noteq> None"
    by (auto simp: kvLong_def emptyKv_def pngMeta_def less_Suc_eq numeral_2_eq_2)
  have o2: "byteSize pngMeta <
      length (concat (map (\<lambda>i. the (chunkRecs kvLong (''x'', i))) [0..<chunks pngMeta]))"
    by code_simp
  have e: "fst (serveImage Map.empty kvLong ''x'') = textResponse 500 ''Internal Server Error''"
    using join_total_size [of "[]" 0 Map.empty "''x''" kvLong,
        THEN conjunct2, THEN conjunct2, THEN conjunct2, THEN conjunct2, THEN conjunct2,
        rule_format, of pngMeta] miss m2 m1(2) p2 o2
    by simp
  from l1 a l2 b l3 c m1 d m2 e show ?thesis by (intro conjI)
qed

section \<open>The public URL\<close>

lemma splitOn_not_Nil: "splitOn c xs \<noteq> []"
  by (induction xs) (auto split: list.splits)

lemma splitOn_no_sep: "c \<notin> set xs \<Longrightarrow> splitOn c xs = [xs]"
  by (induction xs) auto

lemma length_splitOn_sep: "c \<in> set xs \<Longrightarrow> 1 < length (splitOn c xs)"
proof (induction xs)
  case Nil
  then show ?case by simp
next
  case (Cons x xs)
  show ?case
  proof (cases "x = c")
    case True
    then show ?thesis using splitOn_not_Nil [of c xs] by (cases "splitOn c xs") auto
  next
    case False
    with Cons show ?thesis by (cases "splitOn c xs") auto
  qed
qed

lemma takeWhile_snoc_stop:
  "\<not> P y \<or> (\<exists>x \<in> set xs. \<not> P x) \<Longrightarrow> takeWhile P (xs @ [y]) = takeWhile P xs"
  by (induction xs) auto

lemma last_splitOn: "last (splitOn c xs) = rev (takeWhile (\<lambda>x. x \<noteq> c) (rev xs))"
proof (induction xs)
  case Nil
  then show ?case by simp
next
  case (Cons x xs)
  show ?case
  proof (cases "x = c")
    case True
    have "takeWhile (\<lambda>x. x \<noteq> c) (rev xs @ [c]) = takeWhile (\<lambda>x. x \<noteq> c) (rev xs)"
      by (rule takeWhile_snoc_stop) simp
    with True Cons show ?thesis by (simp add: splitOn_not_Nil)
  next
    case False
    show ?thesis
    proof (cases "c \<in> set xs")
      case True
      then have "1 < length (splitOn c xs)" by (rule length_splitOn_sep)
      then obtain p q qs where pq: "splitOn c xs = p # q # qs"
        by (cases "splitOn c xs"; cases "tl (splitOn c xs)") auto
      have "takeWhile (\<lambda>x. x \<noteq> c) (rev xs @ [x]) = takeWhile (\<lambda>x. x \<noteq> c) (rev xs)"
        using True by (intro takeWhile_snoc_stop) auto
      with False Cons pq show ?thesis by simp
    next
      case notin: False
      have whole: "splitOn c (x # xs) = [x # xs]"
        using False notin by (intro splitOn_no_sep) simp
      have "takeWhile (\<lambda>x. x \<noteq> c) (rev (x # xs)) = rev (x # xs)"
        unfolding takeWhile_eq_all_conv using False notin by auto
      then have "rev (takeWhile (\<lambda>x. x \<noteq> c) (rev (x # xs))) = x # xs"
        by (simp only: rev_rev_ident)
      moreover have "last (splitOn c (x # xs)) = x # xs"
        unfolding whole by simp
      ultimately show ?thesis by (simp only:)
    qed
  qed
qed

lemma fileExtension_eq:
  "fileExtension fname =
     (if CHR ''.'' \<in> set fname then rev (takeWhile (\<lambda>x. x \<noteq> CHR ''.'') (rev fname)) else [])"
proof (cases "CHR ''.'' \<in> set fname")
  case True
  from length_splitOn_sep [OF this] True show ?thesis
    by (simp add: fileExtension_def Let_def last_splitOn)
next
  case False
  then show ?thesis
    by (simp add: fileExtension_def Let_def splitOn_no_sep)
qed

lemma fileExtension_empty_iff:
  "fileExtension fname = [] \<longleftrightarrow> CHR ''.'' \<notin> set fname \<or> last fname = CHR ''.''"
proof (cases "CHR ''.'' \<in> set fname")
  case False
  then show ?thesis by (simp add: fileExtension_eq)
next
  case True
  then have ne: "fname \<noteq> []" by auto
  have "takeWhile (\<lambda>x. x \<noteq> CHR ''.'') (rev fname) = [] \<longleftrightarrow> hd (rev fname) = CHR ''.''"
    using ne by (cases "rev fname") auto
  with True ne show ?thesis by (simp add: fileExtension_eq hd_rev)
qed

lemma imageUrl_eq:
  "imageUrl origin imageId fname =
     origin @ ''/image/'' @ imageId @
       (if CHR ''.'' \<in> set fname \<and> last fname \<noteq> CHR ''.''
        then ''.'' @ rev (takeWhile (\<lambda>c. c \<noteq> CHR ''.'') (rev fname)) else [])"
proof (cases "fileExtension fname = []")
  case True
  then show ?thesis
    using fileExtension_empty_iff [of fname] by (simp add: imageUrl_def)
next
  case False
  then have "CHR ''.'' \<in> set fname \<and> last fname \<noteq> CHR ''.''"
    using fileExtension_empty_iff [of fname] by simp
  then show ?thesis
    using False by (simp add: imageUrl_def fileExtension_eq)
qed

text \<open>
  C7. The claim as stated fails twice. A cached outcome carries the URL without any
  extension, although the file name has one; and a file name that ends in a dot gets no
  dot appended, its trailing segment being empty.
\<close>

theorem url_extension_counterexample:
  "resStatus (snd (processFile ''http://h'' 2 toyMd5 kvStored pngFile env2)) = ''cached'' \<and>
   objectId toyMd5 kvStored pngFile env2 = ''u1'' \<and>
   fileName pngFile = ''a.png'' \<and>
   resUrl (snd (processFile ''http://h'' 2 toyMd5 kvStored pngFile env2)) =
     Some ''http://h/image/u1'' \<and>
   resUrl (snd (processFile ''http://h'' 2 toyMd5 kvStored pngFile env2)) \<noteq>
     Some ''http://h/image/u1.png'' \<and>
   resStatus (snd (processFile ''http://h'' 2 toyMd5 emptyKv dotFile env1)) = ''uploaded'' \<and>
   objectId toyMd5 emptyKv dotFile env1 = ''u1'' \<and>
   fileName dotFile = ''abc.'' \<and>
   resUrl (snd (processFile ''http://h'' 2 toyMd5 emptyKv dotFile env1)) =
     Some ''http://h/image/u1'' \<and>
   resUrl (snd (processFile ''http://h'' 2 toyMd5 emptyKv dotFile env1)) \<noteq>
     Some ''http://h/image/u1.''"
  by code_simp

text \<open>
  C7, amended. For every outcome with status uploaded or overwritten, the URL is
  \<open>{origin}/image/{objectId}\<close>, followed by a dot and the part of the file name after
  its last dot when the name contains a dot and does not end in one, and by nothing
  otherwise.
\<close>

theorem upload_url:
  assumes "resStatus (snd (processFile origin cs calculateMd5 s f e)) = ''uploaded'' \<or>
           resStatus (snd (processFile origin cs calculateMd5 s f e)) = ''overwritten''"
  shows "resUrl (snd (processFile origin cs calculateMd5 s f e)) =
           Some (origin @ ''/image/'' @ objectId calculateMd5 s f e @
                 (if CHR ''.'' \<in> set (fileName f) \<and> last (fileName f) \<noteq> CHR ''.''
                  then ''.'' @ rev (takeWhile (\<lambda>c. c \<noteq> CHR ''.'') (rev (fileName f)))
                  else []))"
proof -
  from assms have ok: "resStatus (snd (processFile origin cs calculateMd5 s f e)) \<noteq> ''error''"
    by auto
  note eq = processFile_success [OF ok]
  show ?thesis
  proof (cases "resolve s (calculateMd5 (fileBytes f))")
    case (Cached i)
    with assms eq show ?thesis by (simp add: status_simps)
  next
    case (Overwrite i)
    then show ?thesis
      unfolding eq by (simp add: status_simps objectId_def imageUrl_eq)
  next
    case Fresh
    then show ?thesis
      unfolding eq by (simp add: status_simps objectId_def imageUrl_eq)
  qed
qed

theorem upload_url_witness:
  "resStatus (snd (processFile ''http://h'' 2 toyMd5 emptyKv pngFile env1)) = ''uploaded'' \<and>
   resUrl (snd (processFile ''http://h'' 2 toyMd5 emptyKv pngFile env1)) =
     Some ''http://h/image/u1.png'' \<and>
   resStatus (snd (processFile ''http://h'' 2 toyMd5 kvCrashed smallFile env2)) = ''overwritten'' \<and>
   resUrl (snd (processFile ''http://h'' 2 toyMd5 kvCrashed smallFile env2)) =
     Some ''http://h/image/u1.gif'' \<and>
   resStatus (snd (processFile ''http://h'' 2 toyMd5 emptyKv dotFile env1)) = ''uploaded'' \<and>
   resUrl (snd (processFile ''http://h'' 2 toyMd5 emptyKv dotFile env1)) =
     Some ''http://h/image/u1''"
proof -
  have a: "resStatus (snd (processFile ''http://h'' 2 toyMd5 emptyKv pngFile env1)) = ''uploaded''"
    by code_simp
  have b: "resStatus (snd (processFile ''http://h'' 2 toyMd5 kvCrashed smallFile env2)) = ''overwritten''"
    by code_simp
  have c: "resStatus (snd (processFile ''http://h'' 2 toyMd5 emptyKv dotFile env1)) = ''uploaded''"
    by code_simp
  have ids: "objectId toyMd5 emptyKv pngFile env1 = ''u1''"
    "objectId toyMd5 kvCrashed smallFile env2 = ''u1''"
    "objectId toyMd5 emptyKv dotFile env1 = ''u1''"
    by code_simp+
  have nm: "fileName pngFile = ''a.png''" "fileName smallFile = ''b.gif''"
    "fileName dotFile = ''abc.''"
    by (simp_all add: pngFile_def smallFile_def dotFile_def)
  have a': "resUrl (snd (processFile ''http://h'' 2 toyMd5 emptyKv pngFile env1)) =
     Some ''http://h/image/u1.png''"
    using upload_url [OF disjI1 [OF a] ] by (simp add: ids nm)
  have b': "resUrl (snd (processFile ''http://h'' 2 toyMd5 kvCrashed smallFile env2)) =
     Some ''http://h/image/u1.gif''"
    using upload_url [OF disjI2 [OF b] ] by (simp add: ids nm)
  have c': "resUrl (snd (processFile ''http://h'' 2 toyMd5 emptyKv dotFile env1)) =
     Some ''http://h/image/u1''"
    using upload_url [OF disjI1 [OF c] ] by (simp add: ids nm)
  from a a' b b' c c' show ?thesis by (intro conjI)
qed

section \<open>Two writers of one new digest\<close>

lemma plannedWrites_Fresh:
  "resolve s (h (fileBytes f)) = Fresh \<Longrightarrow>
   plannedWrites cs h s f e =
     uploadWrites cs (uuid e) (newImageMeta cs f (now e) (h (fileBytes f))) (fileBytes f)"
  by (simp add: plannedWrites_def Let_def)

text \<open>
  C4. The claim as stated fails: the commit that creates the digest entry carries no
  check. Two uploads of the same new payload that both look the digest up before either
  commits both take the new-digest branch; the second commit succeeds, replaces the
  entry of the first, and the second upload keeps its own id.
\<close>

theorem digest_race_counterexample:
  "resolve emptyKv (toyMd5 (fileBytes pngFile)) = Fresh \<and>
   toyMd5 (fileBytes pngFile) = ''aa#'' \<and>
   md5_to_id (runWrites emptyKv (plannedWrites 2 toyMd5 emptyKv pngFile env1)) ''aa#'' =
     Some ''u1'' \<and>
   md5_to_id (runWrites (runWrites emptyKv (plannedWrites 2 toyMd5 emptyKv pngFile env1))
                (plannedWrites 2 toyMd5 emptyKv pngFile env2)) ''aa#'' =
     Some ''u2'' \<and>
   objectId toyMd5 emptyKv pngFile env1 = ''u1'' \<and>
   objectId toyMd5 emptyKv pngFile env2 = ''u2'' \<and>
   md5_to_id kvStored ''aa#'' = Some ''u1'' \<and>
   md5_to_id (commit kvStored [SetMeta ''u2'' pngMeta, SetMd5 ''aa#'' ''u2'']) ''aa#'' =
     Some ''u2''"
  by code_simp

text \<open>
  C4, amended. When the digest is unindexed at the look-up, the first write of the upload
  is one atomic commit of the metadata with completed = false under the new UUID and of
  the digest entry pointing to that UUID. The commit has no condition: on every store,
  also one where the digest has been indexed since the look-up, it sets both keys. So
  when a second upload of the same payload looks the digest up before the first one
  commits and writes after it, the digest entry ends up with the id of the second, each
  upload having completed an object under its own id.
\<close>

theorem create_commit_unconditional:
  "(resolve s (calculateMd5 (fileBytes f)) = Fresh \<longrightarrow>
      hd (plannedWrites cs calculateMd5 s f e) =
        [SetMeta (uuid e) (newImageMeta cs f (now e) (calculateMd5 (fileBytes f))),
         SetMd5 (calculateMd5 (fileBytes f)) (uuid e)] \<and>
      \<not> completed (newImageMeta cs f (now e) (calculateMd5 (fileBytes f)))) \<and>
   commit s' [SetMeta imageId m, SetMd5 d imageId] =
     s'\<lparr>metas := (metas s')(imageId \<mapsto> m), md5_to_id := (md5_to_id s')(d \<mapsto> imageId)\<rparr> \<and>
   (resolve s (calculateMd5 (fileBytes f)) = Fresh \<and> fileBytes f2 = fileBytes f \<and>
    uuid e2 \<noteq> uuid e \<longrightarrow>
      md5_to_id (runWrites s (plannedWrites cs calculateMd5 s f e))
          (calculateMd5 (fileBytes f)) = Some (uuid e) \<and>
      md5_to_id (runWrites (runWrites s (plannedWrites cs calculateMd5 s f e))
                   (plannedWrites cs calculateMd5 s f2 e2))
          (calculateMd5 (fileBytes f)) = Some (uuid e2) \<and>
      metas (runWrites (runWrites s (plannedWrites cs calculateMd5 s f e))
               (plannedWrites cs calculateMd5 s f2 e2)) (uuid e) =
        Some ((newImageMeta cs f (now e) (calculateMd5 (fileBytes f)))\<lparr>completed := True\<rparr>) \<and>
      metas (runWrites (runWrites s (plannedWrites cs calculateMd5 s f e))
               (plannedWrites cs calculateMd5 s f2 e2)) (uuid e2) =
        Some ((newImageMeta cs f2 (now e2) (calculateMd5 (fileBytes f)))\<lparr>completed := True\<rparr>))"
proof (intro conjI impI)
  assume "resolve s (calculateMd5 (fileBytes f)) = Fresh"
  then show "hd (plannedWrites cs calculateMd5 s f e) =
        [SetMeta (uuid e) (newImageMeta cs f (now e) (calculateMd5 (fileBytes f))),
         SetMd5 (calculateMd5 (fileBytes f)) (uuid e)]"
    by (simp add: plannedWrites_Fresh uploadWrites_def newImageMeta_fields)
next
  show "\<not> completed (newImageMeta cs f (now e) (calculateMd5 (fileBytes f)))"
    by (simp add: newImageMeta_fields)
next
  show "commit s' [SetMeta imageId m, SetMd5 d imageId] =
     s'\<lparr>metas := (metas s')(imageId \<mapsto> m), md5_to_id := (md5_to_id s')(d \<mapsto> imageId)\<rparr>"
    by (rule commit_SetMeta_SetMd5)
next
  assume h: "resolve s (calculateMd5 (fileBytes f)) = Fresh \<and> fileBytes f2 = fileBytes f \<and>
    uuid e2 \<noteq> uuid e"
  then have p1: "plannedWrites cs calculateMd5 s f e =
      uploadWrites cs (uuid e) (newImageMeta cs f (now e) (calculateMd5 (fileBytes f))) (fileBytes f)"
    by (simp add: plannedWrites_Fresh)
  from h have p2: "plannedWrites cs calculateMd5 s f2 e2 =
      uploadWrites cs (uuid e2) (newImageMeta cs f2 (now e2) (calculateMd5 (fileBytes f)))
        (fileBytes f)"
    using plannedWrites_Fresh [of s calculateMd5 f2 cs e2] by simp
  show "md5_to_id (runWrites s (plannedWrites cs calculateMd5 s f e))
          (calculateMd5 (fileBytes f)) = Some (uuid e)"
    by (simp add: p1 md5_upload_done newImageMeta_fields)
  show "md5_to_id (runWrites (runWrites s (plannedWrites cs calculateMd5 s f e))
                   (plannedWrites cs calculateMd5 s f2 e2))
          (calculateMd5 (fileBytes f)) = Some (uuid e2)"
    by (simp add: p1 p2 md5_upload_done newImageMeta_fields)
  show "metas (runWrites (runWrites s (plannedWrites cs calculateMd5 s f e))
               (plannedWrites cs calculateMd5 s f2 e2)) (uuid e) =
        Some ((newImageMeta cs f (now e) (calculateMd5 (fileBytes f)))\<lparr>completed := True\<rparr>)"
  proof -
    from h have "uuid e \<noteq> uuid e2" by auto
    then show ?thesis by (simp add: p1 p2 metas_upload_done)
  qed
  show "metas (runWrites (runWrites s (plannedWrites cs calculateMd5 s f e))
               (plannedWrites cs calculateMd5 s f2 e2)) (uuid e2) =
        Some ((newImageMeta cs f2 (now e2) (calculateMd5 (fileBytes f)))\<lparr>completed := True\<rparr>)"
    by (simp add: p1 p2 metas_upload_done)
qed

theorem create_commit_unconditional_witness:
  "resolve emptyKv (toyMd5 (fileBytes pngFile)) = Fresh \<and>
   fileBytes pngFile = fileBytes pngFile \<and> uuid env2 \<noteq> uuid env1 \<and>
   hd (plannedWrites 2 toyMd5 emptyKv pngFile env1) =
     [SetMeta ''u1'' (newImageMeta 2 pngFile 7 ''aa#''), SetMd5 ''aa#'' ''u1''] \<and>
   md5_to_id (runWrites emptyKv (plannedWrites 2 toyMd5 emptyKv pngFile env1)) ''aa#'' =
     Some ''u1'' \<and>
   md5_to_id (runWrites (runWrites emptyKv (plannedWrites 2 toyMd5 emptyKv pngFile env1))
                (plannedWrites 2 toyMd5 emptyKv pngFile env2)) ''aa#'' =
     Some ''u2''"
proof -
  have fresh: "resolve emptyKv (toyMd5 (fileBytes pngFile)) = Fresh" by code_simp
  have ne: "uuid env2 \<noteq> uuid env1" by (simp add: env1_def env2_def)
  have d: "toyMd5 (fileBytes pngFile) = ''aa#''" by code_simp
  have u: "uuid env1 = ''u1''" "uuid env2 = ''u2''" "now env1 = 7"
    by (simp_all add: env1_def env2_def)
  note inst = create_commit_unconditional [of emptyKv toyMd5 pngFile 2 env1 emptyKv "''u1''"
      pngMeta "''aa#''" pngFile env2]
  have a: "hd (plannedWrites 2 toyMd5 emptyKv pngFile env1) =
     [SetMeta ''u1'' (newImageMeta 2 pngFile 7 ''aa#''), SetMd5 ''aa#'' ''u1'']"
    using inst [THEN conjunct1, rule_format, OF fresh, THEN conjunct1]
    by (simp only: d u)
  have pre: "resolve emptyKv (toyMd5 (fileBytes pngFile)) = Fresh \<and>
      fileBytes pngFile = fileBytes pngFile \<and> uuid env2 \<noteq> uuid env1"
    using fresh ne by simp
  note race = inst [THEN conjunct2, THEN conjunct2, rule_format, OF pre]
  have b: "md5_to_id (runWrites emptyKv (plannedWrites 2 toyMd5 emptyKv pngFile env1)) ''aa#'' =
     Some ''u1''"
    using race [THEN conjunct1] by (simp only: d u)
  have c: "md5_to_id (runWrites (runWrites emptyKv (plannedWrites 2 toyMd5 emptyKv pngFile env1))
                (plannedWrites 2 toyMd5 emptyKv pngFile env2)) ''aa#'' =
     Some ''u2''"
    using race [THEN conjunct2, THEN conjunct1] by (simp only: d u)
  from fresh ne a b c show ?thesis by simp
qed

end
